theory Spec2Isabelle
  imports Complex_Main
begin

section \<open>Data model\<close>

text \<open>
  A position is the object \<^verbatim>\<open>{row, col}\<close> of the source. Grid cells have integer
  coordinates; the integers are unbounded here, as the coordinates of the source stay
  far below the range in which a JavaScript number stops being an exact integer.
  The source keys its maps and sets by the string \<^verbatim>\<open>`${row},${col}`\<close>, which is
  injective on integer pairs, so the model keys them by the position itself.
\<close>

datatype pos = Pos (row: int) (col: int)

text \<open>
  The grid is an array of rows of cells; of a cell only the flag \<^verbatim>\<open>isObstacle\<close> is
  read. A read \<^verbatim>\<open>grid[r][c].isObstacle\<close> outside the array raises a
  \<^verbatim>\<open>TypeError\<close> in the source (a property of \<^verbatim>\<open>undefined\<close>); the model returns
  \<open>None\<close> there.
\<close>

type_synonym grid = "bool list list"

datatype error = TypeError | NotANumber

definition isObstacle :: "grid \<Rightarrow> int \<Rightarrow> int \<Rightarrow> bool option" where
  "isObstacle g r c =
     (if 0 \<le> r \<and> r < int (length g)
      then (if 0 \<le> c \<and> c < int (length (g ! nat r))
            then Some (g ! nat r ! nat c) else None)
      else None)"

text \<open>A grid whose shape agrees with the \<^verbatim>\<open>rows\<close> and \<^verbatim>\<open>cols\<close> passed beside it.\<close>

definition wf_grid :: "grid \<Rightarrow> int \<Rightarrow> int \<Rightarrow> bool" where
  "wf_grid g rows cols \<longleftrightarrow>
     int (length g) = rows \<and> list_all (\<lambda>r. int (length r) = cols) g"

definition inBounds :: "int \<Rightarrow> int \<Rightarrow> pos \<Rightarrow> bool" where
  "inBounds rows cols p \<longleftrightarrow> 0 \<le> row p \<and> row p < rows \<and> 0 \<le> col p \<and> col p < cols"

text \<open>
  The result object of a planning call. The field \<^verbatim>\<open>exploredNodes\<close> is \<open>None\<close>
  where the returned object has no such property; its elements are cells in a grid
  search and waypoints in a navmesh search. \<^verbatim>\<open>computationTime\<close> is wall-clock
  time and is left out.
\<close>

record metrics =
  nodesExplored :: nat
  pathLength :: nat
  pathCost :: real

record 'e result =
  path :: "pos list"
  exploredNodes :: "'e list option"
  metrics :: metrics

section \<open>Priority queue\<close>

text \<open>
  \<^verbatim>\<open>enqueue\<close> pushes the entry and sorts the array by priority; the sort of the
  language is stable, so an entry goes behind the entries of equal priority.
  \<^verbatim>\<open>dequeue\<close> shifts the first entry out.
\<close>

type_synonym ('a, 'p) PriorityQueue = "('a \<times> 'p) list"

definition enqueue :: "('a, 'p::linorder) PriorityQueue \<Rightarrow> 'a \<Rightarrow> 'p \<Rightarrow> ('a, 'p) PriorityQueue" where
  "enqueue q e p = sort_key snd (q @ [(e, p)])"

definition dequeue :: "('a, 'p) PriorityQueue \<Rightarrow> 'a option \<times> ('a, 'p) PriorityQueue" where
  "dequeue q = (case q of [] \<Rightarrow> (None, []) | x # xs \<Rightarrow> (Some (fst x), xs))"

definition isEmpty :: "('a, 'p) PriorityQueue \<Rightarrow> bool" where
  "isEmpty q \<longleftrightarrow> q = []"

section \<open>Grid search: shared helpers\<close>

definition heuristic :: "pos \<Rightarrow> pos \<Rightarrow> int" where
  "heuristic a b = \<bar>row a - row b\<bar> + \<bar>col a - col b\<bar>"

definition directions4 :: "(int \<times> int) list" where
  "directions4 = [(-1, 0), (1, 0), (0, -1), (0, 1)]"

definition directions8 :: "(int \<times> int) list" where
  "directions8 = directions4 @ [(-1, -1), (-1, 1), (1, -1), (1, 1)]"

text \<open>The loop of \<^verbatim>\<open>getNeighbors\<close> over the directions, in their order.\<close>

fun neighborsIn :: "pos \<Rightarrow> grid \<Rightarrow> int \<Rightarrow> int \<Rightarrow> (int \<times> int) list \<Rightarrow> error + pos list" where
  "neighborsIn cell g rows cols [] = Inr []"
| "neighborsIn cell g rows cols (d # ds) =
     (let newRow = row cell + fst d; newCol = col cell + snd d in
      if newRow \<ge> 0 \<and> newRow < rows \<and> newCol \<ge> 0 \<and> newCol < cols
      then (case isObstacle g newRow newCol of
              None \<Rightarrow> Inl TypeError
            | Some ob \<Rightarrow>
                (case neighborsIn cell g rows cols ds of
                   Inl e \<Rightarrow> Inl e
                 | Inr ns \<Rightarrow> Inr (if ob then ns else Pos newRow newCol # ns)))
      else neighborsIn cell g rows cols ds)"

definition getNeighbors :: "pos \<Rightarrow> grid \<Rightarrow> int \<Rightarrow> int \<Rightarrow> bool \<Rightarrow> error + pos list" where
  "getNeighbors cell g rows cols allowDiagonal =
     neighborsIn cell g rows cols (if allowDiagonal then directions8 else directions4)"

text \<open>
  \<^verbatim>\<open>reconstructPath\<close> follows \<^verbatim>\<open>cameFrom\<close> while the current key has an entry.
  On a cyclic map the loop of the source never ends; the model returns \<open>None\<close> then.
\<close>

partial_function (option) reconstructLoop :: "(pos \<rightharpoonup> pos) \<Rightarrow> pos \<Rightarrow> pos list \<Rightarrow> pos list option" where
  "reconstructLoop cf cur acc =
     (case cf cur of
        None \<Rightarrow> Some acc
      | Some prev \<Rightarrow> reconstructLoop cf prev (prev # acc))"

declare reconstructLoop.simps [code]

definition reconstructPath :: "(pos \<rightharpoonup> pos) \<Rightarrow> pos \<Rightarrow> pos list option" where
  "reconstructPath cf current = reconstructLoop cf current [current]"

section \<open>The search loop\<close>

text \<open>
  Every search of the source is one \<^verbatim>\<open>while (!openSet.isEmpty())\<close> loop whose body
  either returns from the function, goes on with a changed state, or raises. The loop is
  written once; for each algorithm the body is a function of its own. A loop that never
  ends has the value \<open>None\<close>.
\<close>

datatype ('r, 's) iteration = Break 'r | Continue 's

partial_function (option) while_loop ::
  "('s \<Rightarrow> (error + ('r, 's) iteration) option) \<Rightarrow> 's \<Rightarrow> (error + 'r) option" where
  "while_loop body s =
     Option.bind (body s)
       (\<lambda>r. case r of
              Inl e \<Rightarrow> Some (Inl e)
            | Inr (Break v) \<Rightarrow> Some (Inr v)
            | Inr (Continue s') \<Rightarrow> while_loop body s')"

declare while_loop.simps [code]

text \<open>
  The local variables that all searches share: the queue, the predecessor map, the closed
  set and the counter \<^verbatim>\<open>nodesExplored\<close> (here \<open>nExplored\<close>).
\<close>

record ('n, 'p) search_base =
  openSet :: "('n, 'p) PriorityQueue"
  cameFrom :: "'n \<rightharpoonup> 'n"
  visited :: "'n set"
  nExplored :: nat

record ('n, 'p) astar_state = "('n, 'p) search_base" +
  gScore :: "'n \<rightharpoonup> 'p"
  fScore :: "'n \<rightharpoonup> 'p"

text \<open>The object returned by A*, Dijkstra and the greedy search: the cost is the step count.\<close>

definition stepResult :: "pos list \<Rightarrow> nat \<Rightarrow> pos result" where
  "stepResult p n =
     \<lparr>path = p, exploredNodes = None,
      metrics = \<lparr>nodesExplored = n, pathLength = length p, pathCost = real (length p) - 1\<rparr>\<rparr>"

section \<open>A*\<close>

text \<open>
  The loop over the neighbours of \<open>current\<close>. \<^verbatim>\<open>gScore.get(currentKey) + 1\<close> on a missing
  key would be \<^verbatim>\<open>NaN\<close>; the model stops with \<open>NotANumber\<close> there.
\<close>

fun astar_relax ::
  "pos \<Rightarrow> pos \<Rightarrow> pos list \<Rightarrow> (pos, int) astar_state \<Rightarrow> error + (pos, int) astar_state" where
  "astar_relax goal current [] s = Inr s"
| "astar_relax goal current (neighbor # ns) s =
     (if neighbor \<in> visited s then astar_relax goal current ns s
      else (case gScore s current of
              None \<Rightarrow> Inl NotANumber
            | Some gc \<Rightarrow>
                (let tentativeGScore = gc + 1 in
                 if (case gScore s neighbor of None \<Rightarrow> True | Some gn \<Rightarrow> tentativeGScore < gn)
                 then astar_relax goal current ns
                        (s\<lparr>cameFrom := (cameFrom s)(neighbor \<mapsto> current),
                           gScore := (gScore s)(neighbor \<mapsto> tentativeGScore),
                           fScore := (fScore s)(neighbor \<mapsto> tentativeGScore + heuristic neighbor goal),
                           openSet := enqueue (openSet s) neighbor
                                        (tentativeGScore + heuristic neighbor goal)\<rparr>)
                 else astar_relax goal current ns s)))"

text \<open>
  One iteration. The goal test comes first; there is no test whether \<open>current\<close> is
  already in \<open>visited\<close>.
\<close>

definition astar_body ::
  "grid \<Rightarrow> pos \<Rightarrow> int \<Rightarrow> int \<Rightarrow> (pos, int) astar_state
     \<Rightarrow> (error + (pos result option, (pos, int) astar_state) iteration) option" where
  "astar_body g goal rows cols s =
     (case openSet s of
        [] \<Rightarrow> Some (Inr (Break None))
      | e # rest \<Rightarrow>
          (let current = fst e in
           if current = goal
           then map_option (\<lambda>p. Inr (Break (Some (stepResult p (nExplored s)))))
                  (reconstructPath (cameFrom s) current)
           else (case getNeighbors current g rows cols False of
                   Inl err \<Rightarrow> Some (Inl err)
                 | Inr ns \<Rightarrow>
                     (case astar_relax goal current ns
                             (s\<lparr>openSet := rest, visited := insert current (visited s),
                                nExplored := Suc (nExplored s)\<rparr>) of
                        Inl err \<Rightarrow> Some (Inl err)
                      | Inr s' \<Rightarrow> Some (Inr (Continue s'))))))"

definition astar_init :: "pos \<Rightarrow> pos \<Rightarrow> (pos, int) astar_state" where
  "astar_init start goal =
     \<lparr>openSet = enqueue [] start (heuristic start goal),
      cameFrom = Map.empty,
      visited = {},
      nExplored = 0,
      gScore = [start \<mapsto> 0],
      fScore = [start \<mapsto> heuristic start goal]\<rparr>"

definition astar :: "grid \<Rightarrow> pos \<Rightarrow> pos \<Rightarrow> int \<Rightarrow> int \<Rightarrow> (error + pos result option) option" where
  "astar g start goal rows cols = while_loop (astar_body g goal rows cols) (astar_init start goal)"

section \<open>Dijkstra\<close>

text \<open>The map \<^verbatim>\<open>distance\<close> of the source is the field \<open>distanceTo\<close>.\<close>

record ('n, 'p) dijkstra_state = "('n, 'p) search_base" +
  distanceTo :: "'n \<rightharpoonup> 'p"

fun dijkstra_relax ::
  "pos \<Rightarrow> pos list \<Rightarrow> (pos, int) dijkstra_state \<Rightarrow> error + (pos, int) dijkstra_state" where
  "dijkstra_relax current [] s = Inr s"
| "dijkstra_relax current (neighbor # ns) s =
     (if neighbor \<in> visited s then dijkstra_relax current ns s
      else (case distanceTo s current of
              None \<Rightarrow> Inl NotANumber
            | Some dc \<Rightarrow>
                (let newDistance = dc + 1 in
                 if (case distanceTo s neighbor of None \<Rightarrow> True | Some dn \<Rightarrow> newDistance < dn)
                 then dijkstra_relax current ns
                        (s\<lparr>distanceTo := (distanceTo s)(neighbor \<mapsto> newDistance),
                           cameFrom := (cameFrom s)(neighbor \<mapsto> current),
                           openSet := enqueue (openSet s) neighbor newDistance\<rparr>)
                 else dijkstra_relax current ns s)))"

definition dijkstra_body ::
  "grid \<Rightarrow> pos \<Rightarrow> int \<Rightarrow> int \<Rightarrow> (pos, int) dijkstra_state
     \<Rightarrow> (error + (pos result option, (pos, int) dijkstra_state) iteration) option" where
  "dijkstra_body g goal rows cols s =
     (case openSet s of
        [] \<Rightarrow> Some (Inr (Break None))
      | e # rest \<Rightarrow>
          (let current = fst e in
           if current \<in> visited s then Some (Inr (Continue (s\<lparr>openSet := rest\<rparr>)))
           else if current = goal
           then map_option (\<lambda>p. Inr (Break (Some (stepResult p (Suc (nExplored s))))))
                  (reconstructPath (cameFrom s) current)
           else (case getNeighbors current g rows cols False of
                   Inl err \<Rightarrow> Some (Inl err)
                 | Inr ns \<Rightarrow>
                     (case dijkstra_relax current ns
                             (s\<lparr>openSet := rest, visited := insert current (visited s),
                                nExplored := Suc (nExplored s)\<rparr>) of
                        Inl err \<Rightarrow> Some (Inl err)
                      | Inr s' \<Rightarrow> Some (Inr (Continue s'))))))"

definition dijkstra_init :: "pos \<Rightarrow> (pos, int) dijkstra_state" where
  "dijkstra_init start =
     \<lparr>openSet = enqueue [] start 0,
      cameFrom = Map.empty,
      visited = {},
      nExplored = 0,
      distanceTo = [start \<mapsto> 0]\<rparr>"

definition dijkstra :: "grid \<Rightarrow> pos \<Rightarrow> pos \<Rightarrow> int \<Rightarrow> int \<Rightarrow> (error + pos result option) option" where
  "dijkstra g start goal rows cols = while_loop (dijkstra_body g goal rows cols) (dijkstra_init start)"

section \<open>Greedy best-first\<close>

fun greedy_relax ::
  "pos \<Rightarrow> pos \<Rightarrow> pos list \<Rightarrow> (pos, int) search_base \<Rightarrow> (pos, int) search_base" where
  "greedy_relax goal current [] s = s"
| "greedy_relax goal current (neighbor # ns) s =
     (if neighbor \<in> visited s then greedy_relax goal current ns s
      else if cameFrom s neighbor = None
      then greedy_relax goal current ns
             (s\<lparr>cameFrom := (cameFrom s)(neighbor \<mapsto> current),
                openSet := enqueue (openSet s) neighbor (heuristic neighbor goal)\<rparr>)
      else greedy_relax goal current ns s)"

definition greedy_body ::
  "grid \<Rightarrow> pos \<Rightarrow> int \<Rightarrow> int \<Rightarrow> (pos, int) search_base
     \<Rightarrow> (error + (pos result option, (pos, int) search_base) iteration) option" where
  "greedy_body g goal rows cols s =
     (case openSet s of
        [] \<Rightarrow> Some (Inr (Break None))
      | e # rest \<Rightarrow>
          (let current = fst e in
           if current \<in> visited s then Some (Inr (Continue (s\<lparr>openSet := rest\<rparr>)))
           else if current = goal
           then map_option (\<lambda>p. Inr (Break (Some (stepResult p (Suc (nExplored s))))))
                  (reconstructPath (cameFrom s) current)
           else (case getNeighbors current g rows cols False of
                   Inl err \<Rightarrow> Some (Inl err)
                 | Inr ns \<Rightarrow>
                     Some (Inr (Continue
                       (greedy_relax goal current ns
                          (s\<lparr>openSet := rest, visited := insert current (visited s),
                             nExplored := Suc (nExplored s)\<rparr>)))))))"

definition greedy_init :: "pos \<Rightarrow> pos \<Rightarrow> (pos, int) search_base" where
  "greedy_init start goal =
     \<lparr>openSet = enqueue [] start (heuristic start goal),
      cameFrom = Map.empty,
      visited = {},
      nExplored = 0\<rparr>"

definition greedyBestFirst :: "grid \<Rightarrow> pos \<Rightarrow> pos \<Rightarrow> int \<Rightarrow> int \<Rightarrow> (error + pos result option) option" where
  "greedyBestFirst g start goal rows cols =
     while_loop (greedy_body g goal rows cols) (greedy_init start goal)"

section \<open>Euclidean distance and the reported path distance\<close>

text \<open>
  The numbers of the source are IEEE doubles; the model computes with the reals. The
  square root and the sums of square roots are therefore exact here.
  \<^verbatim>\<open>Math.round\<close> rounds to the nearest integer, a half upwards.
\<close>

definition distance :: "pos \<Rightarrow> pos \<Rightarrow> real" where
  "distance a b = sqrt ((real_of_int (row a - row b))\<^sup>2 + (real_of_int (col a - col b))\<^sup>2)"

definition mathRound :: "real \<Rightarrow> int" where
  "mathRound x = \<lfloor>x + 1 / 2\<rfloor>"

fun sumDistances :: "real \<Rightarrow> pos list \<Rightarrow> real" where
  "sumDistances d (a # b # ps) = sumDistances (d + distance a b) (b # ps)"
| "sumDistances d ps = d"

definition calculatePathDistance :: "pos list \<Rightarrow> real" where
  "calculatePathDistance p = real_of_int (mathRound (sumDistances 0 p * 10)) / 10"

text \<open>The object returned by JPS and Theta*: the cost is the rounded path distance.\<close>

definition distanceResult :: "pos list \<Rightarrow> nat \<Rightarrow> pos result" where
  "distanceResult p n =
     \<lparr>path = p, exploredNodes = None,
      metrics = \<lparr>nodesExplored = n, pathLength = length p,
                 pathCost = calculatePathDistance p\<rparr>\<rparr>"

section \<open>Jump point search\<close>

text \<open>
  \<^verbatim>\<open>hasForcedNeighbor\<close>: the conjunctions of the source are evaluated from the left and
  stop at the first false conjunct; each grid read can raise.
\<close>

definition readObstacle :: "grid \<Rightarrow> int \<Rightarrow> int \<Rightarrow> error + bool" where
  "readObstacle g r c = (case isObstacle g r c of None \<Rightarrow> Inl TypeError | Some b \<Rightarrow> Inr b)"

definition forcedSide :: "bool \<Rightarrow> error + bool \<Rightarrow> bool \<Rightarrow> error + bool \<Rightarrow> error + bool" where
  "forcedSide guard beside ahead_ok diag =
     (if \<not> guard then Inr False
      else (case beside of
              Inl e \<Rightarrow> Inl e
            | Inr b \<Rightarrow>
                if \<not> b then Inr False
                else if \<not> ahead_ok then Inr False
                else (case diag of Inl e \<Rightarrow> Inl e | Inr d \<Rightarrow> Inr (\<not> d))))"

definition hasForcedNeighbor :: "pos \<Rightarrow> int \<times> int \<Rightarrow> grid \<Rightarrow> int \<Rightarrow> int \<Rightarrow> error + bool" where
  "hasForcedNeighbor node dir g rows cols =
     (if fst dir \<noteq> 0
      then (let left = col node - 1; right = col node + 1;
                ahead = row node + fst dir;
                ahead_ok = (ahead \<ge> 0 \<and> ahead < rows) in
            case forcedSide (left \<ge> 0) (readObstacle g (row node) left) ahead_ok
                   (readObstacle g ahead left) of
              Inl e \<Rightarrow> Inl e
            | Inr True \<Rightarrow> Inr True
            | Inr False \<Rightarrow>
                forcedSide (right < cols) (readObstacle g (row node) right) ahead_ok
                  (readObstacle g ahead right))
      else (let up = row node - 1; down = row node + 1;
                ahead = col node + snd dir;
                ahead_ok = (ahead \<ge> 0 \<and> ahead < cols) in
            case forcedSide (up \<ge> 0) (readObstacle g up (col node)) ahead_ok
                   (readObstacle g up ahead) of
              Inl e \<Rightarrow> Inl e
            | Inr True \<Rightarrow> Inr True
            | Inr False \<Rightarrow>
                forcedSide (down < rows) (readObstacle g down (col node)) ahead_ok
                  (readObstacle g down ahead)))"

text \<open>
  \<^verbatim>\<open>jump\<close> is recursive, with the parameter \<^verbatim>\<open>depth\<close> and the guard
  \<^verbatim>\<open>if (depth > 100) return null\<close>. It is defined as a partial function, so that its
  termination is a theorem and not a premise of the definition.
\<close>

partial_function (option) jump ::
  "pos \<Rightarrow> int \<times> int \<Rightarrow> grid \<Rightarrow> int \<Rightarrow> int \<Rightarrow> pos \<Rightarrow> nat \<Rightarrow> (error + pos option) option" where
  "jump current dir g rows cols goal depth =
     (if depth > 100 then Some (Inr None)
      else
        (let next = Pos (row current + fst dir) (col current + snd dir) in
         if row next < 0 \<or> row next \<ge> rows \<or> col next < 0 \<or> col next \<ge> cols
         then Some (Inr None)
         else (case isObstacle g (row next) (col next) of
                 None \<Rightarrow> Some (Inl TypeError)
               | Some ob \<Rightarrow>
                   if ob then Some (Inr None)
                   else if row next = row goal \<and> col next = col goal then Some (Inr (Some next))
                   else if fst dir \<noteq> 0 \<and> snd dir \<noteq> 0
                   then Option.bind (jump next (fst dir, 0) g rows cols goal (depth + 1))
                          (\<lambda>r1. case r1 of
                                   Inl e \<Rightarrow> Some (Inl e)
                                 | Inr (Some jp) \<Rightarrow> Some (Inr (Some next))
                                 | Inr None \<Rightarrow>
                                     Option.bind (jump next (0, snd dir) g rows cols goal (depth + 1))
                                       (\<lambda>r2. case r2 of
                                                Inl e \<Rightarrow> Some (Inl e)
                                              | Inr (Some jp) \<Rightarrow> Some (Inr (Some next))
                                              | Inr None \<Rightarrow>
                                                  jump next dir g rows cols goal (depth + 1)))
                   else (case hasForcedNeighbor next dir g rows cols of
                           Inl e \<Rightarrow> Some (Inl e)
                         | Inr forced \<Rightarrow>
                             if forced then Some (Inr (Some next))
                             else jump next dir g rows cols goal (depth + 1)))))"

declare jump.simps [code]

fun successorsIn ::
  "pos \<Rightarrow> grid \<Rightarrow> int \<Rightarrow> int \<Rightarrow> pos \<Rightarrow> (int \<times> int) list \<Rightarrow> (error + pos list) option" where
  "successorsIn node g rows cols goal [] = Some (Inr [])"
| "successorsIn node g rows cols goal (dir # dirs) =
     Option.bind (jump node dir g rows cols goal 0)
       (\<lambda>r. case r of
              Inl e \<Rightarrow> Some (Inl e)
            | Inr jumpPoint \<Rightarrow>
                Option.bind (successorsIn node g rows cols goal dirs)
                  (\<lambda>rs. case rs of
                           Inl e \<Rightarrow> Some (Inl e)
                         | Inr successors \<Rightarrow>
                             Some (Inr (case jumpPoint of
                                          None \<Rightarrow> successors
                                        | Some jp \<Rightarrow> jp # successors))))"

definition identifySuccessors ::
  "pos \<Rightarrow> grid \<Rightarrow> int \<Rightarrow> int \<Rightarrow> pos \<Rightarrow> (error + pos list) option" where
  "identifySuccessors node g rows cols goal = successorsIn node g rows cols goal directions8"

fun jps_relax ::
  "pos \<Rightarrow> pos \<Rightarrow> pos list \<Rightarrow> (pos, real) astar_state \<Rightarrow> error + (pos, real) astar_state" where
  "jps_relax goal current [] s = Inr s"
| "jps_relax goal current (jp # jps) s =
     (if jp \<in> visited s then jps_relax goal current jps s
      else (case gScore s current of
              None \<Rightarrow> Inl NotANumber
            | Some gc \<Rightarrow>
                (let tentativeG = gc + distance current jp in
                 if (case gScore s jp of None \<Rightarrow> True | Some gj \<Rightarrow> tentativeG < gj)
                 then jps_relax goal current jps
                        (s\<lparr>cameFrom := (cameFrom s)(jp \<mapsto> current),
                           gScore := (gScore s)(jp \<mapsto> tentativeG),
                           fScore := (fScore s)(jp \<mapsto> tentativeG + real_of_int (heuristic jp goal)),
                           openSet := enqueue (openSet s) jp
                                        (tentativeG + real_of_int (heuristic jp goal))\<rparr>)
                 else jps_relax goal current jps s)))"

definition jps_body ::
  "grid \<Rightarrow> pos \<Rightarrow> int \<Rightarrow> int \<Rightarrow> (pos, real) astar_state
     \<Rightarrow> (error + (pos result option, (pos, real) astar_state) iteration) option" where
  "jps_body g goal rows cols s =
     (case openSet s of
        [] \<Rightarrow> Some (Inr (Break None))
      | e # rest \<Rightarrow>
          (let current = fst e in
           if current \<in> visited s then Some (Inr (Continue (s\<lparr>openSet := rest\<rparr>)))
           else if current = goal
           then map_option (\<lambda>p. Inr (Break (Some (distanceResult p (Suc (nExplored s))))))
                  (reconstructPath (cameFrom s) current)
           else Option.bind (identifySuccessors current g rows cols goal)
                  (\<lambda>r. case r of
                         Inl err \<Rightarrow> Some (Inl err)
                       | Inr jumpPoints \<Rightarrow>
                           (case jps_relax goal current jumpPoints
                                   (s\<lparr>openSet := rest, visited := insert current (visited s),
                                      nExplored := Suc (nExplored s)\<rparr>) of
                              Inl err \<Rightarrow> Some (Inl err)
                            | Inr s' \<Rightarrow> Some (Inr (Continue s'))))))"

definition real_init :: "pos \<Rightarrow> pos \<Rightarrow> (pos, real) astar_state" where
  "real_init start goal =
     \<lparr>openSet = enqueue [] start (real_of_int (heuristic start goal)),
      cameFrom = Map.empty,
      visited = {},
      nExplored = 0,
      gScore = [start \<mapsto> 0],
      fScore = [start \<mapsto> real_of_int (heuristic start goal)]\<rparr>"

definition jps :: "grid \<Rightarrow> pos \<Rightarrow> pos \<Rightarrow> int \<Rightarrow> int \<Rightarrow> (error + pos result option) option" where
  "jps g start goal rows cols = while_loop (jps_body g goal rows cols) (real_init start goal)"

section \<open>Line rasterisation\<close>

text \<open>
  \<^verbatim>\<open>lineOfSight\<close> (Theta*) and \<^verbatim>\<open>hasLineOfSight\<close> (navmesh) run the same
  \<^verbatim>\<open>while (true)\<close> loop over the cells of a line and differ in how they test a cell.
  The loop takes the test as a parameter: \<open>Inr True\<close> for an obstacle, \<open>Inl\<close> for a
  read that raises. \<open>x\<close> is a column, \<open>y\<close> a row.
\<close>

partial_function (option) lineLoop ::
  "(int \<Rightarrow> int \<Rightarrow> error + bool) \<Rightarrow> int \<Rightarrow> int \<Rightarrow> int \<Rightarrow> int \<Rightarrow> int \<Rightarrow> int
     \<Rightarrow> int \<Rightarrow> int \<Rightarrow> int \<Rightarrow> (error + bool) option" where
  "lineLoop blocked x1 y1 dx dy sx sy x0 y0 err =
     (case blocked y0 x0 of
        Inl e \<Rightarrow> Some (Inl e)
      | Inr ob \<Rightarrow>
          if ob then Some (Inr False)
          else if x0 = x1 \<and> y0 = y1 then Some (Inr True)
          else (let e2 = 2 * err;
                    err' = (if e2 > - dy then err - dy else err);
                    x0' = (if e2 > - dy then x0 + sx else x0);
                    err'' = (if e2 < dx then err' + dx else err');
                    y0' = (if e2 < dx then y0 + sy else y0)
                in lineLoop blocked x1 y1 dx dy sx sy x0' y0' err''))"

declare lineLoop.simps [code]

definition lineFrom :: "(int \<Rightarrow> int \<Rightarrow> error + bool) \<Rightarrow> pos \<Rightarrow> pos \<Rightarrow> (error + bool) option" where
  "lineFrom blocked a b =
     (let x0 = col a; y0 = row a; x1 = col b; y1 = row b;
          dx = \<bar>x1 - x0\<bar>; dy = \<bar>y1 - y0\<bar>;
          sx = (if x0 < x1 then 1 else -1);
          sy = (if y0 < y1 then 1 else -1)
      in lineLoop blocked x1 y1 dx dy sx sy x0 y0 (dx - dy))"

text \<open>Theta*: the cell is read without a bounds test.\<close>

definition lineOfSight :: "pos \<Rightarrow> pos \<Rightarrow> grid \<Rightarrow> (error + bool) option" where
  "lineOfSight a b g = lineFrom (\<lambda>y x. readObstacle g y x) a b"

text \<open>
  Navmesh: the cell is read only inside \<^verbatim>\<open>grid.length\<close> and \<^verbatim>\<open>grid[0].length\<close>; a
  cell outside counts as free.
\<close>

definition guardedObstacle :: "grid \<Rightarrow> int \<Rightarrow> int \<Rightarrow> error + bool" where
  "guardedObstacle g y x =
     (if y \<ge> 0 \<and> y < int (length g) \<and> x \<ge> 0 \<and> x < int (length (g ! 0))
      then readObstacle g y x else Inr False)"

definition hasLineOfSight :: "pos \<Rightarrow> pos \<Rightarrow> grid \<Rightarrow> (error + bool) option" where
  "hasLineOfSight a b g = lineFrom (guardedObstacle g) a b"

section \<open>Theta*\<close>

text \<open>The block that both branches of the relaxation share, relaxing through \<open>src\<close>.\<close>

definition theta_update ::
  "pos \<Rightarrow> pos \<Rightarrow> pos \<Rightarrow> (pos, real) astar_state \<Rightarrow> error + (pos, real) astar_state" where
  "theta_update goal src neighbor s =
     (case gScore s src of
        None \<Rightarrow> Inl NotANumber
      | Some gs \<Rightarrow>
          (let tentativeG = gs + distance src neighbor in
           if (case gScore s neighbor of None \<Rightarrow> True | Some gn \<Rightarrow> tentativeG < gn)
           then Inr (s\<lparr>cameFrom := (cameFrom s)(neighbor \<mapsto> src),
                       gScore := (gScore s)(neighbor \<mapsto> tentativeG),
                       fScore := (fScore s)(neighbor \<mapsto> tentativeG + real_of_int (heuristic neighbor goal)),
                       openSet := enqueue (openSet s) neighbor
                                    (tentativeG + real_of_int (heuristic neighbor goal))\<rparr>)
           else Inr s))"

text \<open>
  One neighbour: with a recorded parent of \<open>current\<close> that sees the neighbour, relax
  through the parent (path 2); otherwise through \<open>current\<close> (path 1).
\<close>

definition theta_neighbor ::
  "grid \<Rightarrow> pos \<Rightarrow> pos \<Rightarrow> pos \<Rightarrow> (pos, real) astar_state
     \<Rightarrow> (error + (pos, real) astar_state) option" where
  "theta_neighbor g goal current neighbor s =
     (if neighbor \<in> visited s then Some (Inr s)
      else (case cameFrom s current of
              None \<Rightarrow> Some (theta_update goal current neighbor s)
            | Some parent \<Rightarrow>
                Option.bind (lineOfSight parent neighbor g)
                  (\<lambda>r. case r of
                         Inl e \<Rightarrow> Some (Inl e)
                       | Inr sees \<Rightarrow>
                           if sees then Some (theta_update goal parent neighbor s)
                           else Some (theta_update goal current neighbor s))))"

fun theta_relax ::
  "grid \<Rightarrow> pos \<Rightarrow> pos \<Rightarrow> pos list \<Rightarrow> (pos, real) astar_state
     \<Rightarrow> (error + (pos, real) astar_state) option" where
  "theta_relax g goal current [] s = Some (Inr s)"
| "theta_relax g goal current (neighbor # ns) s =
     (case theta_neighbor g goal current neighbor s of
        None \<Rightarrow> None
      | Some (Inl e) \<Rightarrow> Some (Inl e)
      | Some (Inr s') \<Rightarrow> theta_relax g goal current ns s')"

definition theta_body ::
  "grid \<Rightarrow> pos \<Rightarrow> int \<Rightarrow> int \<Rightarrow> (pos, real) astar_state
     \<Rightarrow> (error + (pos result option, (pos, real) astar_state) iteration) option" where
  "theta_body g goal rows cols s =
     (case openSet s of
        [] \<Rightarrow> Some (Inr (Break None))
      | e # rest \<Rightarrow>
          (let current = fst e in
           if current \<in> visited s then Some (Inr (Continue (s\<lparr>openSet := rest\<rparr>)))
           else if current = goal
           then map_option (\<lambda>p. Inr (Break (Some (distanceResult p (Suc (nExplored s))))))
                  (reconstructPath (cameFrom s) current)
           else (case getNeighbors current g rows cols True of
                   Inl err \<Rightarrow> Some (Inl err)
                 | Inr ns \<Rightarrow>
                     map_option (map_sum id Continue)
                       (theta_relax g goal current ns
                          (s\<lparr>openSet := rest, visited := insert current (visited s),
                             nExplored := Suc (nExplored s)\<rparr>)))))"

definition thetaStar :: "grid \<Rightarrow> pos \<Rightarrow> pos \<Rightarrow> int \<Rightarrow> int \<Rightarrow> (error + pos result option) option" where
  "thetaStar g start goal rows cols =
     while_loop (theta_body g goal rows cols) (real_init start goal)"

section \<open>Interpolated segments\<close>

text \<open>
  \<^verbatim>\<open>pathCrossesObstacle\<close> samples the segment at \<^verbatim>\<open>steps + 1\<close> points and rounds each
  to a cell, which it reads without a bounds test. The arithmetic of the source is in
  doubles: the parameter \<open>fl\<close> is the rounding of each operation to a representable number
  (the identity for exact arithmetic).
\<close>

definition lerp :: "(real \<Rightarrow> real) \<Rightarrow> int \<Rightarrow> int \<Rightarrow> real \<Rightarrow> int" where
  "lerp fl a b t = mathRound (fl (real_of_int a + fl (real_of_int (b - a) * t)))"

fun crossesFrom :: "(real \<Rightarrow> real) \<Rightarrow> pos \<Rightarrow> pos \<Rightarrow> grid \<Rightarrow> int \<Rightarrow> int list \<Rightarrow> error + bool" where
  "crossesFrom fl a b g steps [] = Inr False"
| "crossesFrom fl a b g steps (i # is) =
     (let t = (if steps = 0 then 0 else fl (real_of_int i / real_of_int steps));
          r = lerp fl (row a) (row b) t;
          c = lerp fl (col a) (col b) t
      in case readObstacle g r c of
           Inl e \<Rightarrow> Inl e
         | Inr ob \<Rightarrow> if ob then Inr True else crossesFrom fl a b g steps is)"

definition pathCrossesObstacle :: "(real \<Rightarrow> real) \<Rightarrow> pos \<Rightarrow> pos \<Rightarrow> grid \<Rightarrow> error + bool" where
  "pathCrossesObstacle fl a b g =
     (let steps = max \<bar>row b - row a\<bar> \<bar>col b - col a\<bar>
      in crossesFrom fl a b g steps [0..steps])"

text \<open>
  \<^verbatim>\<open>smoothRRTPath\<close> and \<^verbatim>\<open>smoothNavMeshPath\<close> turn a leg into cells with the same
  interpolation, and push a cell unless it is the one pushed last.
\<close>

definition pushCell :: "pos list \<Rightarrow> pos \<Rightarrow> pos list" where
  "pushCell smoothPath c =
     (if smoothPath = [] \<or> row (last smoothPath) \<noteq> row c \<or> col (last smoothPath) \<noteq> col c
      then smoothPath @ [c] else smoothPath)"

definition legCells :: "(real \<Rightarrow> real) \<Rightarrow> pos \<Rightarrow> pos \<Rightarrow> pos list" where
  "legCells fl a b =
     (let d = max \<bar>row b - row a\<bar> \<bar>col b - col a\<bar> in
      map (\<lambda>j. let t = (if d = 0 then 0 else fl (real_of_int j / real_of_int d))
                in Pos (lerp fl (row a) (row b) t) (lerp fl (col a) (col b) t))
          [0..d])"

fun gridLegs :: "(real \<Rightarrow> real) \<Rightarrow> pos list \<Rightarrow> pos list \<Rightarrow> pos list" where
  "gridLegs fl (a # b # ps) gridPath =
     gridLegs fl (b # ps) (foldl pushCell gridPath (legCells fl a b))"
| "gridLegs fl ps gridPath = gridPath"

definition smoothRRTPath :: "(real \<Rightarrow> real) \<Rightarrow> pos list \<Rightarrow> pos list" where
  "smoothRRTPath fl rrtPath = gridLegs fl rrtPath []"

section \<open>RRT\<close>

text \<open>
  A tree node is \<^verbatim>\<open>{position, parent}\<close>, the parent being a node or \<^verbatim>\<open>null\<close>. Nodes are
  never changed after they are made, so a node holds its parent as a value.
\<close>

datatype rrt_node = Node (position: pos) (parent: "rrt_node option")

fun unshiftBranch :: "rrt_node \<Rightarrow> pos list \<Rightarrow> pos list" where
  "unshiftBranch (Node p None) rrtPath = p # rrtPath"
| "unshiftBranch (Node p (Some n)) rrtPath = unshiftBranch n (p # rrtPath)"

definition reconstructRRTPath :: "rrt_node \<Rightarrow> pos list" where
  "reconstructRRTPath node = unshiftBranch node []"

text \<open>
  The distances that the two RRT functions compute are rounded like every other
  operation of theirs. The scan for the nearest node starts from \<^verbatim>\<open>tree[0]\<close>; on an
  empty tree that read would raise.
\<close>

fun nearestTo :: "(real \<Rightarrow> real) \<Rightarrow> pos \<Rightarrow> rrt_node list \<Rightarrow> rrt_node \<Rightarrow> real \<Rightarrow> rrt_node" where
  "nearestTo fl p [] nearest minDist = nearest"
| "nearestTo fl p (node # nodes) nearest minDist =
     (let d = fl (distance (position node) p) in
      if d < minDist then nearestTo fl p nodes node d
      else nearestTo fl p nodes nearest minDist)"

definition nearestNode :: "(real \<Rightarrow> real) \<Rightarrow> rrt_node list \<Rightarrow> pos \<Rightarrow> error + rrt_node" where
  "nearestNode fl tr p =
     (case tr of
        [] \<Rightarrow> Inl TypeError
      | n # ns \<Rightarrow> Inr (nearestTo fl p tr n (fl (distance (position n) p))))"

definition extendToward ::
  "(real \<Rightarrow> real) \<Rightarrow> pos \<Rightarrow> pos \<Rightarrow> real \<Rightarrow> int \<Rightarrow> int \<Rightarrow> pos option" where
  "extendToward fl from to stepSize rows cols =
     (let dist = fl (distance from to) in
      if dist = 0 then None
      else (let ratio = min (fl (stepSize / dist)) 1;
                newRow = lerp fl (row from) (row to) ratio;
                newCol = lerp fl (col from) (col to) ratio
            in if newRow < 0 \<or> newRow \<ge> rows \<or> newCol < 0 \<or> newCol \<ge> cols then None
               else Some (Pos newRow newCol)))"

text \<open>
  \<^verbatim>\<open>Math.random\<close> is the parameter \<open>rnd\<close>: \<open>rnd k\<close> is the number that the call number
  \<open>k\<close> of a run returns. The sample is the goal if the first number drawn is below
  \<^verbatim>\<open>0.1\<close> (the double next to a tenth), and a cell from two more numbers otherwise. The
  second component of the value is the count of numbers drawn so far.
\<close>

definition randomPoint ::
  "(real \<Rightarrow> real) \<Rightarrow> (nat \<Rightarrow> real) \<Rightarrow> nat \<Rightarrow> pos \<Rightarrow> int \<Rightarrow> int \<Rightarrow> pos \<times> nat" where
  "randomPoint fl rnd k goal rows cols =
     (if rnd k < fl (1 / 10) then (goal, k + 1)
      else (Pos \<lfloor>fl (rnd (k + 1) * real_of_int rows)\<rfloor> \<lfloor>fl (rnd (k + 2) * real_of_int cols)\<rfloor>,
            k + 3))"

text \<open>The result object of \<^verbatim>\<open>rrt\<close>: \<^verbatim>\<open>{path, metrics, tree}\<close>.\<close>

record rrt_result = "pos result" +
  tree :: "rrt_node list"

definition rrtResult :: "pos list \<Rightarrow> nat \<Rightarrow> rrt_node list \<Rightarrow> rrt_result" where
  "rrtResult gridPath n tr =
     \<lparr>path = gridPath, exploredNodes = None,
      metrics = \<lparr>nodesExplored = n, pathLength = length gridPath,
                 pathCost = calculatePathDistance gridPath\<rparr>,
      tree = tr\<rparr>"

text \<open>
  The \<^verbatim>\<open>for\<close> loop of \<^verbatim>\<open>rrt\<close>, by the number of iterations that are left; \<open>tr\<close> is
  \<^verbatim>\<open>tree\<close>, \<open>nodes\<close> is \<^verbatim>\<open>nodesExplored\<close> and \<open>k\<close> counts the random numbers drawn.
\<close>

fun rrt_loop ::
  "(real \<Rightarrow> real) \<Rightarrow> (nat \<Rightarrow> real) \<Rightarrow> grid \<Rightarrow> pos \<Rightarrow> int \<Rightarrow> int \<Rightarrow> nat
     \<Rightarrow> rrt_node list \<Rightarrow> nat \<Rightarrow> nat \<Rightarrow> error + rrt_result option" where
  "rrt_loop fl rnd g goal rows cols 0 tr nodes k = Inr None"
| "rrt_loop fl rnd g goal rows cols (Suc i) tr nodes k =
     (case randomPoint fl rnd k goal rows cols of
        (randomPt, k') \<Rightarrow>
          (case nearestNode fl tr randomPt of
             Inl e \<Rightarrow> Inl e
           | Inr nearest \<Rightarrow>
               (case extendToward fl (position nearest) randomPt 2 rows cols of
                  None \<Rightarrow> rrt_loop fl rnd g goal rows cols i tr nodes k'
                | Some newPos \<Rightarrow>
                    (case readObstacle g (row newPos) (col newPos) of
                       Inl e \<Rightarrow> Inl e
                     | Inr ob \<Rightarrow>
                         if ob then rrt_loop fl rnd g goal rows cols i tr nodes k'
                         else (case pathCrossesObstacle fl (position nearest) newPos g of
                                 Inl e \<Rightarrow> Inl e
                               | Inr crosses \<Rightarrow>
                                   if crosses then rrt_loop fl rnd g goal rows cols i tr nodes k'
                                   else (let newNode = Node newPos (Some nearest) in
                                         if fl (distance newPos goal) < 3 / 2
                                         then Inr (Some (rrtResult
                                                (smoothRRTPath fl
                                                   (reconstructRRTPath (Node goal (Some newNode))))
                                                (Suc nodes) (tr @ [newNode])))
                                         else rrt_loop fl rnd g goal rows cols i
                                                (tr @ [newNode]) (Suc nodes) k'))))))"

text \<open>\<^verbatim>\<open>maxIterations\<close> is 2000 unless the caller passes it.\<close>

definition rrt ::
  "(real \<Rightarrow> real) \<Rightarrow> (nat \<Rightarrow> real) \<Rightarrow> grid \<Rightarrow> pos \<Rightarrow> pos \<Rightarrow> int \<Rightarrow> int \<Rightarrow> nat
     \<Rightarrow> error + rrt_result option" where
  "rrt fl rnd g start goal rows cols maxIterations =
     rrt_loop fl rnd g goal rows cols maxIterations [Node start None] 0 0"

section \<open>Navigation mesh\<close>

text \<open>
  A waypoint is \<^verbatim>\<open>{id, row, col}\<close>, an edge \<^verbatim>\<open>{from, to, cost}\<close>, the mesh
  \<^verbatim>\<open>{waypoints, edges}\<close>. An array read \<^verbatim>\<open>waypoints[i]\<close> outside the array is
  \<^verbatim>\<open>undefined\<close>, here \<open>None\<close>.
\<close>

datatype waypoint = Waypoint (wid: nat) (wpos: pos)

record edge =
  fromId :: nat
  toId :: nat
  cost :: real

record navmesh =
  waypoints :: "waypoint list"
  edges :: "edge list"

definition waypointAt :: "waypoint list \<Rightarrow> nat \<Rightarrow> waypoint option" where
  "waypointAt ws i = (if i < length ws then Some (ws ! i) else None)"

text \<open>A \<^verbatim>\<open>for\<close> loop over a list whose body can raise or not return.\<close>

fun forEach :: "('a \<Rightarrow> 's \<Rightarrow> (error + 's) option) \<Rightarrow> 'a list \<Rightarrow> 's \<Rightarrow> (error + 's) option" where
  "forEach f [] s = Some (Inr s)"
| "forEach f (x # xs) s =
     (case f x s of
        None \<Rightarrow> None
      | Some (Inl e) \<Rightarrow> Some (Inl e)
      | Some (Inr s') \<Rightarrow> forEach f xs s')"

definition existsAt :: "waypoint list \<Rightarrow> int \<Rightarrow> int \<Rightarrow> bool" where
  "existsAt ws r c = list_ex (\<lambda>w. row (wpos w) = r \<and> col (wpos w) = c) ws"

definition pushWaypoint :: "waypoint list \<Rightarrow> int \<Rightarrow> int \<Rightarrow> waypoint list" where
  "pushWaypoint ws r c = ws @ [Waypoint (length ws) (Pos r c)]"

definition corners :: "int \<Rightarrow> int \<Rightarrow> pos list" where
  "corners r c =
     [Pos (r - 1) (c - 1), Pos (r - 1) c, Pos (r - 1) (c + 1),
      Pos r (c - 1), Pos r (c + 1),
      Pos (r + 1) (c - 1), Pos (r + 1) c, Pos (r + 1) (c + 1)]"

definition addCorner :: "grid \<Rightarrow> int \<Rightarrow> int \<Rightarrow> pos \<Rightarrow> waypoint list \<Rightarrow> (error + waypoint list) option" where
  "addCorner g rows cols corner ws =
     (if row corner \<ge> 0 \<and> row corner < rows \<and> col corner \<ge> 0 \<and> col corner < cols
      then (case readObstacle g (row corner) (col corner) of
              Inl e \<Rightarrow> Some (Inl e)
            | Inr ob \<Rightarrow>
                if \<not> ob \<and> \<not> existsAt ws (row corner) (col corner)
                then Some (Inr (pushWaypoint ws (row corner) (col corner)))
                else Some (Inr ws))
      else Some (Inr ws))"

definition aroundObstacle :: "grid \<Rightarrow> int \<Rightarrow> int \<Rightarrow> int \<Rightarrow> int \<Rightarrow> waypoint list \<Rightarrow> (error + waypoint list) option" where
  "aroundObstacle g rows cols r c ws =
     (case readObstacle g r c of
        Inl e \<Rightarrow> Some (Inl e)
      | Inr ob \<Rightarrow>
          if ob then forEach (addCorner g rows cols) (corners r c) ws else Some (Inr ws))"

text \<open>The values of \<^verbatim>\<open>for (x = i; x < n; x += spacing)\<close>, with \<^verbatim>\<open>spacing = 5\<close>.\<close>

function lattice :: "int \<Rightarrow> int \<Rightarrow> int list" where
  "lattice i n = (if i < n then i # lattice (i + 5) n else [])"
  by pat_completeness auto
termination
  by (relation "measure (\<lambda>(i, n). nat (n - i))") auto

definition openArea :: "grid \<Rightarrow> int \<Rightarrow> int \<Rightarrow> waypoint list \<Rightarrow> (error + waypoint list) option" where
  "openArea g r c ws =
     (case readObstacle g r c of
        Inl e \<Rightarrow> Some (Inl e)
      | Inr ob \<Rightarrow>
          if \<not> ob \<and> \<not> existsAt ws r c then Some (Inr (pushWaypoint ws r c))
          else Some (Inr ws))"

definition heuristicWaypoint :: "waypoint \<Rightarrow> waypoint \<Rightarrow> real" where
  "heuristicWaypoint wp1 wp2 = distance (wpos wp1) (wpos wp2)"

definition connect :: "grid \<Rightarrow> waypoint list \<Rightarrow> nat \<Rightarrow> nat \<Rightarrow> edge list \<Rightarrow> (error + edge list) option" where
  "connect g ws i j es =
     (let w1 = ws ! i; w2 = ws ! j; d = distance (wpos w1) (wpos w2) in
      if d > 15 then Some (Inr es)
      else Option.bind (hasLineOfSight (wpos w1) (wpos w2) g)
             (\<lambda>r. case r of
                    Inl e \<Rightarrow> Some (Inl e)
                  | Inr sees \<Rightarrow>
                      if sees then Some (Inr (es @ [\<lparr>fromId = i, toId = j, cost = d\<rparr>]))
                      else Some (Inr es)))"

definition generateNavMesh :: "grid \<Rightarrow> int \<Rightarrow> int \<Rightarrow> (error + navmesh) option" where
  "generateNavMesh g rows cols =
     Option.bind
       (forEach (\<lambda>r. forEach (\<lambda>c. aroundObstacle g rows cols r c) [0..cols - 1]) [0..rows - 1] [])
       (\<lambda>r1. case r1 of
          Inl e \<Rightarrow> Some (Inl e)
        | Inr ws1 \<Rightarrow>
            Option.bind
              (forEach (\<lambda>r. forEach (\<lambda>c. openArea g r c) (lattice 2 cols)) (lattice 2 rows) ws1)
              (\<lambda>r2. case r2 of
                 Inl e \<Rightarrow> Some (Inl e)
               | Inr ws \<Rightarrow>
                   Option.bind
                     (forEach (\<lambda>i. forEach (\<lambda>j. connect g ws i j) [i + 1..<length ws])
                        [0..<length ws] [])
                     (\<lambda>r3. case r3 of
                        Inl e \<Rightarrow> Some (Inl e)
                      | Inr es \<Rightarrow> Some (Inr \<lparr>waypoints = ws, edges = es\<rparr>))))"

section \<open>Search on the navigation mesh\<close>

text \<open>
  \<^verbatim>\<open>findNearestWaypoint\<close>: \<^verbatim>\<open>nearest\<close> and \<^verbatim>\<open>minDist\<close> are one optional pair, \<open>None\<close>
  standing for \<^verbatim>\<open>null\<close> and \<^verbatim>\<open>Infinity\<close>.
\<close>

definition nearer :: "pos \<Rightarrow> grid \<Rightarrow> waypoint \<Rightarrow> (waypoint \<times> real) option
    \<Rightarrow> (error + (waypoint \<times> real) option) option" where
  "nearer point g wp best =
     Option.bind (hasLineOfSight point (wpos wp) g)
       (\<lambda>r. case r of
              Inl e \<Rightarrow> Some (Inl e)
            | Inr sees \<Rightarrow>
                if sees
                then (let d = distance point (wpos wp) in
                      if (case best of None \<Rightarrow> True | Some (n, minDist) \<Rightarrow> d < minDist)
                      then Some (Inr (Some (wp, d))) else Some (Inr best))
                else Some (Inr best))"

definition findNearestWaypoint :: "waypoint list \<Rightarrow> pos \<Rightarrow> grid \<Rightarrow> (error + waypoint option) option" where
  "findNearestWaypoint ws point g =
     map_option (map_sum id (map_option fst)) (forEach (nearer point g) ws None)"

text \<open>
  The adjacency map: an empty array for every index of \<^verbatim>\<open>waypoints\<close>, then both
  directions of every edge. A push on a missing key raises.
\<close>

type_synonym adjacency = "nat \<rightharpoonup> (nat \<times> real) list"

definition addEdge :: "edge \<Rightarrow> adjacency \<Rightarrow> (error + adjacency) option" where
  "addEdge e adj =
     (case adj (fromId e) of
        None \<Rightarrow> Some (Inl TypeError)
      | Some ns \<Rightarrow>
          (let adj' = adj(fromId e \<mapsto> ns @ [(toId e, cost e)]) in
           case adj' (toId e) of
             None \<Rightarrow> Some (Inl TypeError)
           | Some ms \<Rightarrow> Some (Inr (adj'(toId e \<mapsto> ms @ [(fromId e, cost e)])))))"

definition buildAdjacencyList :: "navmesh \<Rightarrow> (error + adjacency) option" where
  "buildAdjacencyList nm =
     forEach addEdge (edges nm) (\<lambda>i. if i < length (waypoints nm) then Some [] else None)"

text \<open>
  The state of a navmesh search: the variables of the grid search and the array
  \<^verbatim>\<open>visitedNodes\<close>. Dijkstra and the greedy search leave the scores they do not declare
  untouched.
\<close>

record nav_state =
  search :: "(nat, real) astar_state"
  visitedNodes :: "waypoint option list"

text \<open>
  \<^verbatim>\<open>reconstructWaypointPath\<close>, then start and goal around it. A path element is
  \<open>None\<close> where the array read was \<^verbatim>\<open>undefined\<close>.
\<close>

partial_function (option) reconstructWaypointLoop ::
  "(nat \<rightharpoonup> nat) \<Rightarrow> waypoint list \<Rightarrow> nat \<Rightarrow> pos option list \<Rightarrow> pos option list option" where
  "reconstructWaypointLoop cf ws cur acc =
     (case cf cur of
        None \<Rightarrow> Some acc
      | Some prev \<Rightarrow>
          reconstructWaypointLoop cf ws prev (map_option wpos (waypointAt ws prev) # acc))"

declare reconstructWaypointLoop.simps [code]

definition reconstructWaypointPath :: "(nat \<rightharpoonup> nat) \<Rightarrow> nat \<Rightarrow> waypoint list \<Rightarrow> pos option list option" where
  "reconstructWaypointPath cf currentId ws =
     reconstructWaypointLoop cf ws currentId [map_option wpos (waypointAt ws currentId)]"

text \<open>
  \<^verbatim>\<open>smoothNavMeshPath\<close>: the cells of every leg by linear interpolation, a cell equal
  to the last one pushed being skipped, and the last point at the end. Reading a
  coordinate of \<^verbatim>\<open>undefined\<close> raises. The arithmetic is in doubles, rounded by \<open>fl\<close>.
\<close>

fun smoothLegs :: "(real \<Rightarrow> real) \<Rightarrow> pos option list \<Rightarrow> pos list \<Rightarrow> error + pos list" where
  "smoothLegs fl (a # b # ps) smoothPath =
     (case (a, b) of
        (Some from, Some to) \<Rightarrow>
          smoothLegs fl (b # ps) (foldl pushCell smoothPath (legCells fl from to))
      | _ \<Rightarrow> Inl TypeError)"
| "smoothLegs fl ps smoothPath = Inr smoothPath"

definition smoothNavMeshPath :: "(real \<Rightarrow> real) \<Rightarrow> pos option list \<Rightarrow> error + pos list" where
  "smoothNavMeshPath fl wp =
     (case smoothLegs fl wp [] of
        Inl e \<Rightarrow> Inl e
      | Inr smoothPath \<Rightarrow>
          (if wp = [] then Inl TypeError
           else (case last wp of
                   None \<Rightarrow> Inl TypeError
                 | Some l \<Rightarrow> Inr (pushCell smoothPath (Pos (row l) (col l))))))"

definition calculatePathDistanceNavMesh :: "pos list \<Rightarrow> real" where
  "calculatePathDistanceNavMesh p = real_of_int (mathRound (sumDistances 0 p * 10)) / 10"

text \<open>The result object of a navmesh search, with the extra field \<^verbatim>\<open>waypointPath\<close>.\<close>

record nav_result = "waypoint option result" +
  waypointPath :: "pos option list"

definition navResult :: "pos list \<Rightarrow> waypoint option list \<Rightarrow> nat \<Rightarrow> pos option list \<Rightarrow> nav_result" where
  "navResult smoothPath vs n wpath =
     \<lparr>path = smoothPath, exploredNodes = Some vs,
      metrics = \<lparr>nodesExplored = n, pathLength = length smoothPath,
                 pathCost = calculatePathDistanceNavMesh smoothPath\<rparr>,
      waypointPath = wpath\<rparr>"

section \<open>Path smoothing (funnel)\<close>

text \<open>A line-of-sight test between two array elements; an \<^verbatim>\<open>undefined\<close> one raises.\<close>

definition visibleFrom :: "pos option \<Rightarrow> pos option \<Rightarrow> grid \<Rightarrow> (error + bool) option" where
  "visibleFrom a b g =
     (case a of
        None \<Rightarrow> Some (Inl TypeError)
      | Some from \<Rightarrow>
          (case b of None \<Rightarrow> Some (Inl TypeError) | Some to \<Rightarrow> hasLineOfSight from to g))"

text \<open>
  The inner \<^verbatim>\<open>for\<close> loop: \<open>far\<close> is \<^verbatim>\<open>farthestVisible\<close>; the loop ends at the first
  index that is not visible from \<^verbatim>\<open>waypointPath[currentIndex]\<close>.
\<close>

fun scan :: "pos option list \<Rightarrow> grid \<Rightarrow> nat \<Rightarrow> nat list \<Rightarrow> nat \<Rightarrow> (error + nat) option" where
  "scan wp g currentIndex [] far = Some (Inr far)"
| "scan wp g currentIndex (i # is) far =
     Option.bind (visibleFrom (wp ! currentIndex) (wp ! i) g)
       (\<lambda>r. case r of
              Inl e \<Rightarrow> Some (Inl e)
            | Inr sees \<Rightarrow> if sees then scan wp g currentIndex is i else Some (Inr far))"

partial_function (option) funnelLoop ::
  "pos option list \<Rightarrow> grid \<Rightarrow> nat \<Rightarrow> pos option list \<Rightarrow> (error + pos option list) option" where
  "funnelLoop wp g currentIndex smoothPath =
     (if int currentIndex < int (length wp) - 1
      then Option.bind
             (scan wp g currentIndex [currentIndex + 2..<length wp] (currentIndex + 1))
             (\<lambda>r. case r of
                    Inl e \<Rightarrow> Some (Inl e)
                  | Inr farthestVisible \<Rightarrow>
                      funnelLoop wp g farthestVisible (smoothPath @ [wp ! farthestVisible]))
      else Some (Inr smoothPath))"

declare funnelLoop.simps [code]

definition funnelAlgorithm :: "pos option list \<Rightarrow> grid \<Rightarrow> (error + pos option list) option" where
  "funnelAlgorithm wp g =
     (if length wp \<le> 2 then Some (Inr wp)
      else funnelLoop wp g 0 [wp ! 0])"

section \<open>The navmesh searches\<close>

definition andThen :: "(error + 'a) option \<Rightarrow> ('a \<Rightarrow> (error + 'b) option) \<Rightarrow> (error + 'b) option" where
  "andThen m f = Option.bind m (\<lambda>r. case r of Inl e \<Rightarrow> Some (Inl e) | Inr v \<Rightarrow> f v)"

text \<open>
  The result of \<^verbatim>\<open>navmeshAStar\<close>: the waypoint path between start and goal, densified
  without the funnel.
\<close>

definition astarNavResult ::
  "(real \<Rightarrow> real) \<Rightarrow> (nat \<rightharpoonup> nat) \<Rightarrow> nat \<Rightarrow> navmesh \<Rightarrow> pos \<Rightarrow> pos \<Rightarrow> nat
     \<Rightarrow> waypoint option list \<Rightarrow> (error + nav_result) option" where
  "astarNavResult fl cf currentId nm start goal n vs =
     Option.bind (reconstructWaypointPath cf currentId (waypoints nm))
       (\<lambda>wps. let wp = Some start # wps @ [Some goal] in
               case smoothNavMeshPath fl wp of
                 Inl e \<Rightarrow> Some (Inl e)
               | Inr smoothPath \<Rightarrow> Some (Inr (navResult smoothPath vs n wp)))"

definition buildNavMeshResult ::
  "(real \<Rightarrow> real) \<Rightarrow> (nat \<rightharpoonup> nat) \<Rightarrow> nat \<Rightarrow> navmesh \<Rightarrow> pos \<Rightarrow> pos \<Rightarrow> grid \<Rightarrow> nat
     \<Rightarrow> waypoint option list \<Rightarrow> (error + nav_result) option" where
  "buildNavMeshResult fl cf goalId nm start goal g n vs =
     Option.bind (reconstructWaypointPath cf goalId (waypoints nm))
       (\<lambda>wps. let wp = Some start # wps @ [Some goal] in
               andThen (funnelAlgorithm wp g)
                 (\<lambda>funnelPath.
                    case smoothNavMeshPath fl funnelPath of
                      Inl e \<Rightarrow> Some (Inl e)
                    | Inr smoothPath \<Rightarrow> Some (Inr (navResult smoothPath vs n wp))))"

text \<open>The heuristic of a neighbour: \<^verbatim>\<open>heuristicWaypoint(navmesh.waypoints[id], goalWaypoint)\<close>.\<close>

definition heuristicAt :: "waypoint list \<Rightarrow> nat \<Rightarrow> waypoint \<Rightarrow> error + real" where
  "heuristicAt ws i goalWaypoint =
     (case waypointAt ws i of
        None \<Rightarrow> Inl TypeError
      | Some w \<Rightarrow> Inr (heuristicWaypoint w goalWaypoint))"

fun navAStar_relax ::
  "waypoint list \<Rightarrow> waypoint \<Rightarrow> nat \<Rightarrow> (nat \<times> real) list \<Rightarrow> (nat, real) astar_state
     \<Rightarrow> error + (nat, real) astar_state" where
  "navAStar_relax ws goalWaypoint currentId [] s = Inr s"
| "navAStar_relax ws goalWaypoint currentId (neighbor # ns) s =
     (if fst neighbor \<in> visited s then navAStar_relax ws goalWaypoint currentId ns s
      else (case gScore s currentId of
              None \<Rightarrow> Inl NotANumber
            | Some gc \<Rightarrow>
                (let tentativeG = gc + snd neighbor in
                 if (case gScore s (fst neighbor) of None \<Rightarrow> True | Some gn \<Rightarrow> tentativeG < gn)
                 then (case heuristicAt ws (fst neighbor) goalWaypoint of
                         Inl e \<Rightarrow> Inl e
                       | Inr h \<Rightarrow>
                           navAStar_relax ws goalWaypoint currentId ns
                             (s\<lparr>cameFrom := (cameFrom s)(fst neighbor \<mapsto> currentId),
                                gScore := (gScore s)(fst neighbor \<mapsto> tentativeG),
                                fScore := (fScore s)(fst neighbor \<mapsto> tentativeG + h),
                                openSet := enqueue (openSet s) (fst neighbor) (tentativeG + h)\<rparr>))
                 else navAStar_relax ws goalWaypoint currentId ns s)))"

fun navDijkstra_relax ::
  "nat \<Rightarrow> (nat \<times> real) list \<Rightarrow> (nat, real) astar_state \<Rightarrow> error + (nat, real) astar_state" where
  "navDijkstra_relax currentId [] s = Inr s"
| "navDijkstra_relax currentId (neighbor # ns) s =
     (if fst neighbor \<in> visited s then navDijkstra_relax currentId ns s
      else (case gScore s currentId of
              None \<Rightarrow> Inl NotANumber
            | Some gc \<Rightarrow>
                (let tentativeG = gc + snd neighbor in
                 if (case gScore s (fst neighbor) of None \<Rightarrow> True | Some gn \<Rightarrow> tentativeG < gn)
                 then navDijkstra_relax currentId ns
                        (s\<lparr>cameFrom := (cameFrom s)(fst neighbor \<mapsto> currentId),
                           gScore := (gScore s)(fst neighbor \<mapsto> tentativeG),
                           openSet := enqueue (openSet s) (fst neighbor) tentativeG\<rparr>)
                 else navDijkstra_relax currentId ns s)))"

fun navGreedy_relax ::
  "waypoint list \<Rightarrow> waypoint \<Rightarrow> nat \<Rightarrow> (nat \<times> real) list \<Rightarrow> (nat, real) astar_state
     \<Rightarrow> error + (nat, real) astar_state" where
  "navGreedy_relax ws goalWaypoint currentId [] s = Inr s"
| "navGreedy_relax ws goalWaypoint currentId (neighbor # ns) s =
     (if fst neighbor \<in> visited s then navGreedy_relax ws goalWaypoint currentId ns s
      else if cameFrom s (fst neighbor) = None
      then (case heuristicAt ws (fst neighbor) goalWaypoint of
              Inl e \<Rightarrow> Inl e
            | Inr h \<Rightarrow>
                navGreedy_relax ws goalWaypoint currentId ns
                  (s\<lparr>cameFrom := (cameFrom s)(fst neighbor \<mapsto> currentId),
                     openSet := enqueue (openSet s) (fst neighbor) h\<rparr>))
      else navGreedy_relax ws goalWaypoint currentId ns s)"

text \<open>
  One iteration of a navmesh search. The three searches differ in the relaxation
  \<open>relax\<close> and in how the result is built (\<open>finish\<close>); the rest of the body is the same
  text in the three functions of the source.
\<close>

definition nav_body ::
  "(nat \<Rightarrow> (nat \<times> real) list \<Rightarrow> (nat, real) astar_state \<Rightarrow> error + (nat, real) astar_state)
     \<Rightarrow> ((nat \<rightharpoonup> nat) \<Rightarrow> nat \<Rightarrow> nat \<Rightarrow> waypoint option list \<Rightarrow> (error + nav_result) option)
     \<Rightarrow> navmesh \<Rightarrow> adjacency \<Rightarrow> nat \<Rightarrow> nav_state
     \<Rightarrow> (error + (nav_result option, nav_state) iteration) option" where
  "nav_body relax finish nm adj goalId s =
     (case openSet (search s) of
        [] \<Rightarrow> Some (Inr (Break None))
      | e # rest \<Rightarrow>
          (let currentId = fst e in
           if currentId \<in> visited (search s)
           then Some (Inr (Continue (s\<lparr>search := (search s)\<lparr>openSet := rest\<rparr>\<rparr>)))
           else (let s1 = \<lparr>search = (search s)\<lparr>openSet := rest,
                                   visited := insert currentId (visited (search s)),
                                   nExplored := Suc (nExplored (search s))\<rparr>,
                          visitedNodes = visitedNodes s @ [waypointAt (waypoints nm) currentId]\<rparr> in
                 if currentId = goalId
                 then map_option (map_sum id (\<lambda>r. Break (Some r)))
                        (finish (cameFrom (search s1)) currentId (nExplored (search s1))
                           (visitedNodes s1))
                 else (case relax currentId (case adj currentId of None \<Rightarrow> [] | Some ns \<Rightarrow> ns)
                              (search s1) of
                         Inl err \<Rightarrow> Some (Inl err)
                       | Inr s' \<Rightarrow> Some (Inr (Continue (s1\<lparr>search := s'\<rparr>)))))))"

text \<open>
  The state before the first iteration. \<^verbatim>\<open>navmeshAStar\<close> declares both score maps,
  \<^verbatim>\<open>navmeshDijkstra\<close> its distance map (here \<open>gScore\<close>) and \<^verbatim>\<open>navmeshGreedy\<close> none.
\<close>

definition navAStar_init :: "waypoint \<Rightarrow> waypoint \<Rightarrow> nav_state" where
  "navAStar_init startWaypoint goalWaypoint =
     (let h = heuristicWaypoint startWaypoint goalWaypoint in
      \<lparr>search = \<lparr>openSet = enqueue [] (wid startWaypoint) h,
                  cameFrom = Map.empty,
                  visited = {},
                  nExplored = 0,
                  gScore = [wid startWaypoint \<mapsto> 0],
                  fScore = [wid startWaypoint \<mapsto> h]\<rparr>,
       visitedNodes = []\<rparr>)"

definition navDijkstra_init :: "waypoint \<Rightarrow> waypoint \<Rightarrow> nav_state" where
  "navDijkstra_init startWaypoint goalWaypoint =
     \<lparr>search = \<lparr>openSet = enqueue [] (wid startWaypoint) 0,
                 cameFrom = Map.empty,
                 visited = {},
                 nExplored = 0,
                 gScore = [wid startWaypoint \<mapsto> 0],
                 fScore = Map.empty\<rparr>,
      visitedNodes = []\<rparr>"

definition navGreedy_init :: "waypoint \<Rightarrow> waypoint \<Rightarrow> nav_state" where
  "navGreedy_init startWaypoint goalWaypoint =
     \<lparr>search = \<lparr>openSet = enqueue [] (wid startWaypoint)
                             (heuristicWaypoint startWaypoint goalWaypoint),
                 cameFrom = Map.empty,
                 visited = {},
                 nExplored = 0,
                 gScore = Map.empty,
                 fScore = Map.empty\<rparr>,
      visitedNodes = []\<rparr>"

text \<open>The loop bodies of the three searches, for a goal waypoint and an adjacency map.\<close>

definition navAStar_body ::
  "(real \<Rightarrow> real) \<Rightarrow> navmesh \<Rightarrow> pos \<Rightarrow> pos \<Rightarrow> waypoint \<Rightarrow> adjacency \<Rightarrow> nav_state
     \<Rightarrow> (error + (nav_result option, nav_state) iteration) option" where
  "navAStar_body fl nm start goal goalWaypoint adj =
     nav_body (navAStar_relax (waypoints nm) goalWaypoint)
       (\<lambda>cf cur n vs. astarNavResult fl cf cur nm start goal n vs) nm adj (wid goalWaypoint)"

definition navDijkstra_body ::
  "(real \<Rightarrow> real) \<Rightarrow> navmesh \<Rightarrow> pos \<Rightarrow> pos \<Rightarrow> grid \<Rightarrow> waypoint \<Rightarrow> adjacency \<Rightarrow> nav_state
     \<Rightarrow> (error + (nav_result option, nav_state) iteration) option" where
  "navDijkstra_body fl nm start goal g goalWaypoint adj =
     nav_body navDijkstra_relax
       (\<lambda>cf cur n vs. buildNavMeshResult fl cf cur nm start goal g n vs) nm adj (wid goalWaypoint)"

definition navGreedy_body ::
  "(real \<Rightarrow> real) \<Rightarrow> navmesh \<Rightarrow> pos \<Rightarrow> pos \<Rightarrow> grid \<Rightarrow> waypoint \<Rightarrow> adjacency \<Rightarrow> nav_state
     \<Rightarrow> (error + (nav_result option, nav_state) iteration) option" where
  "navGreedy_body fl nm start goal g goalWaypoint adj =
     nav_body (navGreedy_relax (waypoints nm) goalWaypoint)
       (\<lambda>cf cur n vs. buildNavMeshResult fl cf cur nm start goal g n vs) nm adj (wid goalWaypoint)"

text \<open>The entry of every navmesh search: both nearest waypoints, then the adjacency map.\<close>

definition nav_entry ::
  "navmesh \<Rightarrow> pos \<Rightarrow> pos \<Rightarrow> grid
     \<Rightarrow> (waypoint \<Rightarrow> waypoint \<Rightarrow> adjacency \<Rightarrow> (error + 'a option) option)
     \<Rightarrow> (error + 'a option) option" where
  "nav_entry nm start goal g run =
     andThen (findNearestWaypoint (waypoints nm) start g)
       (\<lambda>startWaypoint.
          andThen (findNearestWaypoint (waypoints nm) goal g)
            (\<lambda>goalWaypoint.
               case startWaypoint of
                 None \<Rightarrow> Some (Inr None)
               | Some sw \<Rightarrow>
                   (case goalWaypoint of
                      None \<Rightarrow> Some (Inr None)
                    | Some gw \<Rightarrow> andThen (buildAdjacencyList nm) (run sw gw))))"

definition navmeshAStar ::
  "(real \<Rightarrow> real) \<Rightarrow> navmesh \<Rightarrow> pos \<Rightarrow> pos \<Rightarrow> grid \<Rightarrow> (error + nav_result option) option" where
  "navmeshAStar fl nm start goal g =
     nav_entry nm start goal g
       (\<lambda>sw gw adj. while_loop (navAStar_body fl nm start goal gw adj) (navAStar_init sw gw))"

definition navmeshDijkstra ::
  "(real \<Rightarrow> real) \<Rightarrow> navmesh \<Rightarrow> pos \<Rightarrow> pos \<Rightarrow> grid \<Rightarrow> (error + nav_result option) option" where
  "navmeshDijkstra fl nm start goal g =
     nav_entry nm start goal g
       (\<lambda>sw gw adj. while_loop (navDijkstra_body fl nm start goal g gw adj) (navDijkstra_init sw gw))"

definition navmeshGreedy ::
  "(real \<Rightarrow> real) \<Rightarrow> navmesh \<Rightarrow> pos \<Rightarrow> pos \<Rightarrow> grid \<Rightarrow> (error + nav_result option) option" where
  "navmeshGreedy fl nm start goal g =
     nav_entry nm start goal g
       (\<lambda>sw gw adj. while_loop (navGreedy_body fl nm start goal g gw adj) (navGreedy_init sw gw))"

section \<open>RRT on the navigation mesh\<close>

text \<open>
  The sample of \<^verbatim>\<open>navmeshRRT\<close>: the goal if the first number drawn is below \<^verbatim>\<open>0.2\<close>,
  a waypoint at a random index otherwise. An index outside the array gives
  \<^verbatim>\<open>undefined\<close>, and reading its \<^verbatim>\<open>row\<close> raises.
\<close>

definition randomWaypoint ::
  "(real \<Rightarrow> real) \<Rightarrow> (nat \<Rightarrow> real) \<Rightarrow> nat \<Rightarrow> waypoint list \<Rightarrow> pos \<Rightarrow> error + pos \<times> nat" where
  "randomWaypoint fl rnd k ws goal =
     (if rnd k < fl (2 / 10) then Inr (goal, k + 1)
      else (let idx = \<lfloor>fl (rnd (k + 1) * real (length ws))\<rfloor> in
            case (if idx \<ge> 0 then waypointAt ws (nat idx) else None) of
              None \<Rightarrow> Inl TypeError
            | Some randomWp \<Rightarrow> Inr (Pos (row (wpos randomWp)) (col (wpos randomWp)), k + 2)))"

text \<open>\<^verbatim>\<open>pathCrossesObstacleNavMesh\<close>: a sample outside the grid counts as a crossing.\<close>

fun crossesNavFrom :: "(real \<Rightarrow> real) \<Rightarrow> pos \<Rightarrow> pos \<Rightarrow> grid \<Rightarrow> int \<Rightarrow> int list \<Rightarrow> error + bool" where
  "crossesNavFrom fl a b g steps [] = Inr False"
| "crossesNavFrom fl a b g steps (i # is) =
     (let t = (if steps = 0 then 0 else fl (real_of_int i / real_of_int steps));
          r = lerp fl (row a) (row b) t;
          c = lerp fl (col a) (col b) t
      in if r < 0 \<or> r \<ge> int (length g) \<or> c < 0 \<or> c \<ge> int (length (g ! 0)) then Inr True
         else (case readObstacle g r c of
                 Inl e \<Rightarrow> Inl e
               | Inr ob \<Rightarrow> if ob then Inr True else crossesNavFrom fl a b g steps is))"

definition pathCrossesObstacleNavMesh :: "(real \<Rightarrow> real) \<Rightarrow> pos \<Rightarrow> pos \<Rightarrow> grid \<Rightarrow> error + bool" where
  "pathCrossesObstacleNavMesh fl a b g =
     (let steps = max \<bar>row b - row a\<bar> \<bar>col b - col a\<bar>
      in crossesNavFrom fl a b g steps [0..steps])"

text \<open>The result object of \<^verbatim>\<open>navmeshRRT\<close>; its explored nodes are positions.\<close>

definition navRRTResult :: "pos list \<Rightarrow> pos list \<Rightarrow> nat \<Rightarrow> pos result" where
  "navRRTResult smoothPath explored n =
     \<lparr>path = smoothPath, exploredNodes = Some explored,
      metrics = \<lparr>nodesExplored = n, pathLength = length smoothPath,
                 pathCost = calculatePathDistanceNavMesh smoothPath\<rparr>\<rparr>"

text \<open>
  The new position of an iteration of \<^verbatim>\<open>navmeshRRT\<close>, three cells towards the sample;
  \<open>None\<close> where the iteration goes on to the next one: at distance 0 and outside the
  grid.
\<close>

definition extendOnMesh :: "(real \<Rightarrow> real) \<Rightarrow> pos \<Rightarrow> pos \<Rightarrow> grid \<Rightarrow> pos option" where
  "extendOnMesh fl from to g =
     (let dist = fl (distance from to) in
      if dist = 0 then None
      else (let ratio = min (fl (3 / dist)) 1;
                newRow = lerp fl (row from) (row to) ratio;
                newCol = lerp fl (col from) (col to) ratio
            in if newRow < 0 \<or> newRow \<ge> int (length g)
                  \<or> newCol < 0 \<or> newCol \<ge> int (length (g ! 0)) then None
               else Some (Pos newRow newCol)))"

text \<open>
  The \<^verbatim>\<open>for\<close> loop of \<^verbatim>\<open>navmeshRRT\<close>, by the number of iterations that are left. The
  value holds the tree beside the result object, which has no such field.
\<close>

fun navmeshRRT_loop ::
  "(real \<Rightarrow> real) \<Rightarrow> (nat \<Rightarrow> real) \<Rightarrow> waypoint list \<Rightarrow> grid \<Rightarrow> pos \<Rightarrow> nat
     \<Rightarrow> rrt_node list \<Rightarrow> pos list \<Rightarrow> nat \<Rightarrow> nat
     \<Rightarrow> error + (pos result \<times> rrt_node list) option" where
  "navmeshRRT_loop fl rnd ws g goal 0 tr explored nodes k = Inr None"
| "navmeshRRT_loop fl rnd ws g goal (Suc i) tr explored nodes k =
     (case randomWaypoint fl rnd k ws goal of
        Inl e \<Rightarrow> Inl e
      | Inr (randomPt, k') \<Rightarrow>
          (case nearestNode fl tr randomPt of
             Inl e \<Rightarrow> Inl e
           | Inr nearest \<Rightarrow>
               (case extendOnMesh fl (position nearest) randomPt g of
                  None \<Rightarrow> navmeshRRT_loop fl rnd ws g goal i tr explored nodes k'
                | Some newPos \<Rightarrow>
                    (case readObstacle g (row newPos) (col newPos) of
                       Inl e \<Rightarrow> Inl e
                     | Inr ob \<Rightarrow>
                         if ob then navmeshRRT_loop fl rnd ws g goal i tr explored nodes k'
                         else (case pathCrossesObstacleNavMesh fl (position nearest) newPos g of
                                 Inl e \<Rightarrow> Inl e
                               | Inr crosses \<Rightarrow>
                                   if crosses
                                   then navmeshRRT_loop fl rnd ws g goal i tr explored nodes k'
                                   else (let newNode = Node newPos (Some nearest) in
                                         if fl (distance newPos goal) < 3
                                         then (case smoothNavMeshPath fl
                                                      (map Some (reconstructRRTPath
                                                         (Node goal (Some newNode)))) of
                                                 Inl e \<Rightarrow> Inl e
                                               | Inr smoothPath \<Rightarrow>
                                                   Inr (Some (navRRTResult smoothPath
                                                                (explored @ [newPos]) (Suc nodes),
                                                              tr @ [newNode])))
                                         else navmeshRRT_loop fl rnd ws g goal i
                                                (tr @ [newNode]) (explored @ [newPos])
                                                (Suc nodes) k'))))))"

text \<open>\<^verbatim>\<open>maxIterations\<close> is 1000 unless the caller passes it.\<close>

definition navmeshRRT_run ::
  "(real \<Rightarrow> real) \<Rightarrow> (nat \<Rightarrow> real) \<Rightarrow> navmesh \<Rightarrow> pos \<Rightarrow> pos \<Rightarrow> grid \<Rightarrow> nat
     \<Rightarrow> error + (pos result \<times> rrt_node list) option" where
  "navmeshRRT_run fl rnd nm start goal g maxIterations =
     navmeshRRT_loop fl rnd (waypoints nm) g goal maxIterations [Node start None] [] 0 0"

definition navmeshRRT ::
  "(real \<Rightarrow> real) \<Rightarrow> (nat \<Rightarrow> real) \<Rightarrow> navmesh \<Rightarrow> pos \<Rightarrow> pos \<Rightarrow> grid \<Rightarrow> nat
     \<Rightarrow> error + pos result option" where
  "navmeshRRT fl rnd nm start goal g maxIterations =
     map_sum id (map_option fst) (navmeshRRT_run fl rnd nm start goal g maxIterations)"

text \<open>The tree that a run of \<^verbatim>\<open>navmeshRRT\<close> has built when it returns its result.\<close>

definition navmeshRRT_tree ::
  "(real \<Rightarrow> real) \<Rightarrow> (nat \<Rightarrow> real) \<Rightarrow> navmesh \<Rightarrow> pos \<Rightarrow> pos \<Rightarrow> grid \<Rightarrow> nat
     \<Rightarrow> error + rrt_node list option" where
  "navmeshRRT_tree fl rnd nm start goal g maxIterations =
     map_sum id (map_option snd) (navmeshRRT_run fl rnd nm start goal g maxIterations)"

section \<open>Notions used in the statements\<close>

text \<open>The grid without obstacles.\<close>

definition emptyGrid :: "nat \<Rightarrow> nat \<Rightarrow> grid" where
  "emptyGrid r c = replicate r (replicate c False)"

text \<open>A computation that returns normally: it ends and does not raise.\<close>

definition returnsNormally :: "(error + 'a) option \<Rightarrow> bool" where
  "returnsNormally m \<longleftrightarrow> (\<exists>x. m = Some (Inr x))"

text \<open>The state of a loop after \<open>n\<close> iterations that all went on.\<close>

fun stateAfter :: "nat \<Rightarrow> ('s \<Rightarrow> (error + ('r, 's) iteration) option) \<Rightarrow> 's \<Rightarrow> 's option" where
  "stateAfter 0 body s = Some s"
| "stateAfter (Suc n) body s =
     (case body s of
        Some (Inr (Continue s')) \<Rightarrow> stateAfter n body s'
      | _ \<Rightarrow> None)"

text \<open>A grid of four rows and five columns on which A* dequeues a closed cell.\<close>

definition staleGrid :: grid where
  "staleGrid =
     [[False, False, True, False, True],
      [False, True, False, False, False],
      [False, False, False, True, False],
      [False, True, False, False, False]]"

text \<open>
  A sound edge of a mesh over the waypoints \<open>ws\<close>: it joins two waypoints of the list,
  the line-of-sight test from the first to the second succeeds, they are at most 15
  apart, and the stored cost is their distance.
\<close>

definition edgeSound :: "grid \<Rightarrow> waypoint list \<Rightarrow> edge \<Rightarrow> bool" where
  "edgeSound g ws e \<longleftrightarrow>
     fromId e < toId e \<and> toId e < length ws
     \<and> hasLineOfSight (wpos (ws ! fromId e)) (wpos (ws ! toId e)) g = Some (Inr True)
     \<and> distance (wpos (ws ! fromId e)) (wpos (ws ! toId e)) \<le> 15
     \<and> cost e = distance (wpos (ws ! fromId e)) (wpos (ws ! toId e))"

text \<open>A grid of two rows and two columns with an obstacle at (0,0), and its mesh.\<close>

definition cornerGrid :: grid where
  "cornerGrid = [[True, False], [False, False]]"

definition cornerMesh :: navmesh where
  "cornerMesh =
     \<lparr>waypoints = [Waypoint 0 (Pos 0 1), Waypoint 1 (Pos 1 0), Waypoint 2 (Pos 1 1)],
      edges = [\<lparr>fromId = 0, toId = 1, cost = sqrt 2\<rparr>,
               \<lparr>fromId = 0, toId = 2, cost = 1\<rparr>,
               \<lparr>fromId = 1, toId = 2, cost = 1\<rparr>]\<rparr>"

text \<open>
  Where a scan of the funnel from the anchor index \<open>a\<close> ends: at an index \<open>f\<close> behind the
  anchor such that every index from \<open>a + 2\<close> to \<open>f\<close> is visible from the anchor, and the
  index behind \<open>f\<close>, if there is one, is not. The index \<open>a + 1\<close> is not tested.
\<close>

definition scanStop :: "pos option list \<Rightarrow> grid \<Rightarrow> nat \<Rightarrow> nat \<Rightarrow> bool" where
  "scanStop wp g a f \<longleftrightarrow>
     a < f \<and> f < length wp
     \<and> (\<forall>k\<in>{a + 2..f}. visibleFrom (wp ! a) (wp ! k) g = Some (Inr True))
     \<and> (f + 1 < length wp \<longrightarrow> visibleFrom (wp ! a) (wp ! (f + 1)) g = Some (Inr False))"

text \<open>A grid of one row with two walls, and three waypoints that the walls separate.\<close>

definition wallGrid :: grid where
  "wallGrid = [[False, True, False, True, False]]"

definition wallPath :: "pos option list" where
  "wallPath = [Some (Pos 0 0), Some (Pos 0 2), Some (Pos 0 4)]"

text \<open>
  The index lists that the funnel builds: strictly increasing indices of the input, each
  next index being where the scan from the index before it ends.
\<close>

definition funnelInv :: "pos option list \<Rightarrow> grid \<Rightarrow> nat list \<Rightarrow> bool" where
  "funnelInv wp g is \<longleftrightarrow>
     sorted_wrt (<) is \<and> set is \<subseteq> {..<length wp} \<and> successively (scanStop wp g) is"

text \<open>
  A legal single step of the grid: to a cell that is adjacent in one of the four
  directions, inside the bounds and not an obstacle.
\<close>

definition adjacent4 :: "pos \<Rightarrow> pos \<Rightarrow> bool" where
  "adjacent4 a b \<longleftrightarrow> \<bar>row a - row b\<bar> + \<bar>col a - col b\<bar> = 1"

definition freeCell :: "grid \<Rightarrow> int \<Rightarrow> int \<Rightarrow> pos \<Rightarrow> bool" where
  "freeCell g rows cols p \<longleftrightarrow> inBounds rows cols p \<and> isObstacle g (row p) (col p) = Some False"

definition legalMove :: "grid \<Rightarrow> int \<Rightarrow> int \<Rightarrow> pos \<Rightarrow> pos \<Rightarrow> bool" where
  "legalMove g rows cols a b \<longleftrightarrow> adjacent4 a b \<and> freeCell g rows cols b"

text \<open>
  The predecessor map of a search from \<open>start\<close> whose steps are in the relation \<open>R\<close>:
  the start has no predecessor; every predecessor is one step away and is the start or
  has a predecessor itself; so has every queued node; and until the start is closed the
  queue holds nothing but the start.
\<close>

definition treeInv :: "(pos \<Rightarrow> pos \<Rightarrow> bool) \<Rightarrow> pos \<Rightarrow> (pos, 'p, 'z) search_base_scheme \<Rightarrow> bool" where
  "treeInv R start s \<longleftrightarrow>
     cameFrom s start = None
     \<and> (\<forall>n p. cameFrom s n = Some p \<longrightarrow> R p n \<and> (p = start \<or> cameFrom s p \<noteq> None))
     \<and> (\<forall>e\<in>set (openSet s). fst e = start \<or> cameFrom s (fst e) \<noteq> None)
     \<and> (start \<in> visited s \<or> (\<forall>e\<in>set (openSet s). fst e = start))"

text \<open>A walk from \<open>a\<close> to \<open>b\<close> whose steps are in \<open>R\<close>.\<close>

definition walk :: "(pos \<Rightarrow> pos \<Rightarrow> bool) \<Rightarrow> pos \<Rightarrow> pos \<Rightarrow> pos list \<Rightarrow> bool" where
  "walk R a b p \<longleftrightarrow> p \<noteq> [] \<and> hd p = a \<and> last p = b \<and> successively R p"


text \<open>The cost that JPS and Theta* report for a path: its length, rounded to a tenth.\<close>

definition roundedLength :: "pos list \<Rightarrow> real" where
  "roundedLength p = real_of_int (mathRound (sumDistances 0 p * 10)) / 10"

text \<open>The ten cells of row 0.\<close>

definition row0Path :: "pos list" where
  "row0Path = [Pos 0 0, Pos 0 1, Pos 0 2, Pos 0 3, Pos 0 4, Pos 0 5, Pos 0 6, Pos 0 7,
               Pos 0 8, Pos 0 9]"

text \<open>The result of the three navmesh searches on \<open>cornerMesh\<close> from (0,1) to (1,1).\<close>

definition cornerResult :: nav_result where
  "cornerResult =
     navResult [Pos 0 1, Pos 1 1] [Some (Waypoint 0 (Pos 0 1)), Some (Waypoint 2 (Pos 1 1))] 2
       [Some (Pos 0 1), Some (Pos 0 1), Some (Pos 1 1), Some (Pos 1 1)]"

text \<open>
  The queue of Theta*: ordered by priority; every entry is of a node with a score, and
  its priority is at least that score plus the heuristic; every open node with a score
  has an entry whose priority is at most its score plus the heuristic.
\<close>

definition queueInv :: "pos \<Rightarrow> (pos, real) astar_state \<Rightarrow> bool" where
  "queueInv goal s \<longleftrightarrow>
     sorted (map snd (openSet s))
     \<and> (\<forall>e\<in>set (openSet s). \<exists>ge. gScore s (fst e) = Some ge
            \<and> ge + real_of_int (heuristic (fst e) goal) \<le> snd e)
     \<and> (\<forall>n gn. gScore s n = Some gn \<longrightarrow> n \<notin> visited s
            \<longrightarrow> (\<exists>e\<in>set (openSet s). fst e = n \<and> snd e \<le> gn + real_of_int (heuristic n goal)))"

text \<open>
  The scores of Theta*: the start has score 0 and no predecessor; a predecessor is
  closed, and the score of a node is that of its predecessor plus the distance between
  them; a node with a score is the start or has a predecessor; closed nodes have a
  score; and until the start is closed the queue holds nothing but the start.
\<close>

definition scoreInv :: "pos \<Rightarrow> (pos, real) astar_state \<Rightarrow> bool" where
  "scoreInv start s \<longleftrightarrow>
     cameFrom s start = None \<and> gScore s start = Some 0
     \<and> (\<forall>n p. cameFrom s n = Some p \<longrightarrow> p \<in> visited s
            \<and> (\<exists>gp. gScore s p = Some gp \<and> gScore s n = Some (gp + distance p n)))
     \<and> (\<forall>n. gScore s n \<noteq> None \<longrightarrow> n = start \<or> cameFrom s n \<noteq> None)
     \<and> (\<forall>m\<in>visited s. gScore s m \<noteq> None)
     \<and> (start \<in> visited s \<or> (\<forall>e\<in>set (openSet s). fst e = start))"

text \<open>
  Every step of \<open>R\<close> from a closed node to an open one has been relaxed: the score of
  the open node is at most one more. While the neighbours of \<open>c\<close> are being relaxed,
  those still to come (\<open>todo\<close>) are excepted.
\<close>

definition relaxedInv ::
  "(pos \<Rightarrow> pos \<Rightarrow> bool) \<Rightarrow> pos \<Rightarrow> pos list \<Rightarrow> (pos, real) astar_state \<Rightarrow> bool" where
  "relaxedInv R c todo s \<longleftrightarrow>
     (\<forall>m n. m \<in> visited s \<longrightarrow> n \<notin> visited s \<longrightarrow> R m n \<longrightarrow> \<not> (m = c \<and> n \<in> set todo)
        \<longrightarrow> (\<exists>gm gn. gScore s m = Some gm \<and> gScore s n = Some gn \<and> gn \<le> gm + 1))"

text \<open>Along the reference walk \<open>P\<close>, a closed node has a score of at most its index.\<close>

definition prefixInv :: "pos list \<Rightarrow> (pos, real) astar_state \<Rightarrow> bool" where
  "prefixInv P s \<longleftrightarrow>
     (\<forall>i<length P. P ! i \<in> visited s \<longrightarrow> (\<exists>gi. gScore s (P ! i) = Some gi \<and> gi \<le> real i))"

definition thetaInv ::
  "(pos \<Rightarrow> pos \<Rightarrow> bool) \<Rightarrow> pos \<Rightarrow> pos \<Rightarrow> pos list \<Rightarrow> pos \<Rightarrow> pos list
     \<Rightarrow> (pos, real) astar_state \<Rightarrow> bool" where
  "thetaInv R start goal P c todo s \<longleftrightarrow>
     queueInv goal s \<and> scoreInv start s \<and> relaxedInv R c todo s \<and> prefixInv P s"







text \<open>
  The cells of the rasterised segment from one position to another: the cells that the
  loop of \<^verbatim>\<open>lineOfSight\<close> and \<^verbatim>\<open>hasLineOfSight\<close> visits, in its order, when no cell ends
  it early.
\<close>

partial_function (option) lineCells ::
  "int \<Rightarrow> int \<Rightarrow> int \<Rightarrow> int \<Rightarrow> int \<Rightarrow> int \<Rightarrow> int \<Rightarrow> int \<Rightarrow> int \<Rightarrow> pos list option" where
  "lineCells x1 y1 dx dy sx sy x0 y0 err =
     (if x0 = x1 \<and> y0 = y1 then Some [Pos y0 x0]
      else (let e2 = 2 * err;
                err' = (if e2 > - dy then err - dy else err);
                x0' = (if e2 > - dy then x0 + sx else x0);
                err'' = (if e2 < dx then err' + dx else err');
                y0' = (if e2 < dx then y0 + sy else y0)
            in Option.bind (lineCells x1 y1 dx dy sx sy x0' y0' err'')
                 (\<lambda>cells. Some (Pos y0 x0 # cells))))"

declare lineCells.simps [code]

definition segmentCells :: "pos \<Rightarrow> pos \<Rightarrow> pos list option" where
  "segmentCells a b =
     (let x0 = col a; y0 = row a; x1 = col b; y1 = row b;
          dx = \<bar>x1 - x0\<bar>; dy = \<bar>y1 - y0\<bar>;
          sx = (if x0 < x1 then 1 else -1);
          sy = (if y0 < y1 then 1 else -1)
      in lineCells x1 y1 dx dy sx sy x0 y0 (dx - dy))"

text \<open>An obstacle cell of the grid.\<close>

definition obstacleCell :: "grid \<Rightarrow> pos \<Rightarrow> bool" where
  "obstacleCell g c \<longleftrightarrow> isObstacle g (row c) (col c) = Some True"

text \<open>A grid of two rows and three columns with an obstacle at (1,1).\<close>

definition blockGrid :: grid where
  "blockGrid = [[False, False, False], [False, True, False]]"

text \<open>A segment whose rasterisation, from \<open>a\<close> to \<open>b\<close>, holds no obstacle cell.\<close>

definition clearSegment :: "grid \<Rightarrow> pos \<Rightarrow> pos \<Rightarrow> bool" where
  "clearSegment g a b \<longleftrightarrow>
     (case segmentCells a b of
        None \<Rightarrow> False
      | Some cells \<Rightarrow> list_all (\<lambda>c. \<not> obstacleCell g c) cells)"

text \<open>The mesh of \<open>blockGrid\<close>: the five free cells around the obstacle.\<close>

definition blockMesh :: navmesh where
  "blockMesh =
     \<lparr>waypoints = [Waypoint 0 (Pos 0 0), Waypoint 1 (Pos 0 1), Waypoint 2 (Pos 0 2),
                   Waypoint 3 (Pos 1 0), Waypoint 4 (Pos 1 2)],
      edges = [\<lparr>fromId = 0, toId = 1, cost = 1\<rparr>,
               \<lparr>fromId = 0, toId = 2, cost = 2\<rparr>,
               \<lparr>fromId = 0, toId = 3, cost = 1\<rparr>,
               \<lparr>fromId = 0, toId = 4, cost = sqrt 5\<rparr>,
               \<lparr>fromId = 1, toId = 2, cost = 1\<rparr>,
               \<lparr>fromId = 1, toId = 3, cost = sqrt 2\<rparr>,
               \<lparr>fromId = 1, toId = 4, cost = sqrt 2\<rparr>,
               \<lparr>fromId = 2, toId = 3, cost = sqrt 5\<rparr>,
               \<lparr>fromId = 2, toId = 4, cost = 1\<rparr>]\<rparr>"

text \<open>
  The identifiers that a run of a navmesh search closes, in the order of closing: in
  every iteration the identifier at the head of the queue, unless it is closed already.
  The run is followed until the loop ends.
\<close>

partial_function (option) closedIds ::
  "(nav_state \<Rightarrow> (error + (nav_result option, nav_state) iteration) option) \<Rightarrow> nav_state
     \<Rightarrow> nat list option" where
  "closedIds body s =
     (case openSet (search s) of
        [] \<Rightarrow> Some []
      | e # rest \<Rightarrow>
          (let now = (if fst e \<in> visited (search s) then [] else [fst e]) in
           case body s of
             Some (Inr (Continue s')) \<Rightarrow>
               Option.bind (closedIds body s') (\<lambda>later. Some (now @ later))
           | _ \<Rightarrow> Some now))"

declare closedIds.simps [code]

definition closingOrder ::
  "(waypoint \<Rightarrow> adjacency \<Rightarrow> nav_state \<Rightarrow> (error + (nav_result option, nav_state) iteration) option)
     \<Rightarrow> (waypoint \<Rightarrow> waypoint \<Rightarrow> nav_state) \<Rightarrow> navmesh \<Rightarrow> pos \<Rightarrow> pos \<Rightarrow> grid
     \<Rightarrow> (error + nat list option) option" where
  "closingOrder body init nm start goal g =
     nav_entry nm start goal g
       (\<lambda>sw gw adj. Option.bind (closedIds (body gw adj) (init sw gw))
                       (\<lambda>order. Some (Inr (Some order))))"

section \<open>Properties: the searches on the empty grid\<close>

lemma astar_empty10:
  "astar (emptyGrid 10 10) (Pos 0 0) (Pos 0 9) 10 10 =
     Some (Inr (Some
       \<lparr>path = [Pos 0 0, Pos 0 1, Pos 0 2, Pos 0 3, Pos 0 4, Pos 0 5, Pos 0 6, Pos 0 7,
                Pos 0 8, Pos 0 9],
        exploredNodes = None,
        metrics = \<lparr>nodesExplored = 9, pathLength = 10, pathCost = 9\<rparr>\<rparr>))"
  by code_simp

lemma dijkstra_empty10:
  "dijkstra (emptyGrid 10 10) (Pos 0 0) (Pos 0 9) 10 10 =
     Some (Inr (Some
       \<lparr>path = [Pos 0 0, Pos 0 1, Pos 0 2, Pos 0 3, Pos 0 4, Pos 0 5, Pos 0 6, Pos 0 7,
                Pos 0 8, Pos 0 9],
        exploredNodes = None,
        metrics = \<lparr>nodesExplored = 55, pathLength = 10, pathCost = 9\<rparr>\<rparr>))"
  by code_simp

lemma greedy_empty10:
  "greedyBestFirst (emptyGrid 10 10) (Pos 0 0) (Pos 0 9) 10 10 =
     Some (Inr (Some
       \<lparr>path = [Pos 0 0, Pos 0 1, Pos 0 2, Pos 0 3, Pos 0 4, Pos 0 5, Pos 0 6, Pos 0 7,
                Pos 0 8, Pos 0 9],
        exploredNodes = None,
        metrics = \<lparr>nodesExplored = 10, pathLength = 10, pathCost = 9\<rparr>\<rparr>))"
  by code_simp

lemma successors_empty10:
  "identifySuccessors (Pos 0 0) (emptyGrid 10 10) 10 10 (Pos 0 9) = Some (Inr [Pos 0 9])"
  by code_simp

lemma sqrt_81: "sqrt 81 = 9"
  by (rule real_sqrt_unique) simp_all

lemma jps_empty10:
  "jps (emptyGrid 10 10) (Pos 0 0) (Pos 0 9) 10 10 =
     Some (Inr (Some
       \<lparr>path = [Pos 0 0, Pos 0 9],
        exploredNodes = None,
        metrics = \<lparr>nodesExplored = 2, pathLength = 2, pathCost = 9\<rparr>\<rparr>))"
  by (simp add: jps_def real_init_def while_loop.simps jps_body_def heuristic_def enqueue_def
      successors_empty10 Let_def reconstructPath_def reconstructLoop.simps distance_def
      distanceResult_def calculatePathDistance_def mathRound_def sqrt_81)

text \<open>
  C1, as the code has it. On the empty 10 by 10 grid, from (0,0) to (0,9), A* and
  Dijkstra return the ten cells of row 0 with cost 9, and the greedy search returns a
  path that ends at (0,9). JPS returns its jump points only: the path of the two
  positions (0,0) and (0,9), with cost 9.
\<close>

theorem C1_empty_grid_results:
  "(\<exists>r. astar (emptyGrid 10 10) (Pos 0 0) (Pos 0 9) 10 10 = Some (Inr (Some r))
        \<and> length (path r) = 10 \<and> pathCost (metrics r) = 9)
   \<and> (\<exists>r. dijkstra (emptyGrid 10 10) (Pos 0 0) (Pos 0 9) 10 10 = Some (Inr (Some r))
        \<and> length (path r) = 10 \<and> pathCost (metrics r) = 9)
   \<and> (\<exists>r. jps (emptyGrid 10 10) (Pos 0 0) (Pos 0 9) 10 10 = Some (Inr (Some r))
        \<and> path r = [Pos 0 0, Pos 0 9] \<and> pathCost (metrics r) = 9)
   \<and> (\<exists>r. greedyBestFirst (emptyGrid 10 10) (Pos 0 0) (Pos 0 9) 10 10 = Some (Inr (Some r))
        \<and> last (path r) = Pos 0 9)"
  by (simp add: astar_empty10 dijkstra_empty10 jps_empty10 greedy_empty10)

text \<open>
  C1 as stated fails for JPS: its path on this instance does not have ten positions.
\<close>

theorem C1_jps_path_not_ten:
  "\<not> (\<exists>r. jps (emptyGrid 10 10) (Pos 0 0) (Pos 0 9) 10 10 = Some (Inr (Some r))
         \<and> length (path r) = 10)"
  by (simp add: jps_empty10)

section \<open>Properties: dequeuing a closed node\<close>

text \<open>
  In Dijkstra, the greedy search, JPS, Theta* and the navmesh searches an iteration that
  dequeues a closed node only removes the entry from the queue.
\<close>

lemma dijkstra_closed_noop:
  "openSet s = e # rest \<Longrightarrow> fst e \<in> visited s \<Longrightarrow>
     dijkstra_body g goal rows cols s = Some (Inr (Continue (s\<lparr>openSet := rest\<rparr>)))"
  by (simp add: dijkstra_body_def)

lemma greedy_closed_noop:
  "openSet s = e # rest \<Longrightarrow> fst e \<in> visited s \<Longrightarrow>
     greedy_body g goal rows cols s = Some (Inr (Continue (s\<lparr>openSet := rest\<rparr>)))"
  by (simp add: greedy_body_def)

lemma jps_closed_noop:
  "openSet s = e # rest \<Longrightarrow> fst e \<in> visited s \<Longrightarrow>
     jps_body g goal rows cols s = Some (Inr (Continue (s\<lparr>openSet := rest\<rparr>)))"
  by (simp add: jps_body_def)

lemma theta_closed_noop:
  "openSet s = e # rest \<Longrightarrow> fst e \<in> visited s \<Longrightarrow>
     theta_body g goal rows cols s = Some (Inr (Continue (s\<lparr>openSet := rest\<rparr>)))"
  by (simp add: theta_body_def)

lemma nav_closed_noop:
  "openSet (search s) = e # rest \<Longrightarrow> fst e \<in> visited (search s) \<Longrightarrow>
     nav_body relax finish nm adj goalId s =
       Some (Inr (Continue (s\<lparr>search := (search s)\<lparr>openSet := rest\<rparr>\<rparr>)))"
  by (simp add: nav_body_def)

text \<open>
  C3 fails for A*: its loop has no test for a closed node. On \<open>staleGrid\<close>, from (2,4) to
  (0,1), the eleventh iteration dequeues the cell (3,2), which the tenth iteration
  closed, and counts it again: the run reports 14 explored nodes.
\<close>

theorem C3_astar_counts_closed_node:
  "(case stateAfter 10 (astar_body staleGrid (Pos 0 1) 4 5) (astar_init (Pos 2 4) (Pos 0 1)) of
      None \<Rightarrow> False
    | Some s \<Rightarrow>
        fst (hd (openSet s)) = Pos 3 2 \<and> Pos 3 2 \<in> visited s \<and> nExplored s = 10
        \<and> (case astar_body staleGrid (Pos 0 1) 4 5 s of
             Some (Inr (Continue s')) \<Rightarrow> nExplored s' = 11
           | _ \<Rightarrow> False))
   \<and> map_option (map_sum id (map_option (\<lambda>r. nodesExplored (metrics r))))
        (astar staleGrid (Pos 2 4) (Pos 0 1) 4 5) = Some (Inr (Some 14))"
  by code_simp

section \<open>Properties: the jump scan of JPS\<close>

lemma isObstacle_wf:
  assumes "wf_grid g rows cols" "0 \<le> r" "r < rows" "0 \<le> c" "c < cols"
  shows "\<exists>b. isObstacle g r c = Some b"
proof -
  from assms have "nat r < length g" by (simp add: wf_grid_def nat_less_iff)
  with assms have "int (length (g ! nat r)) = cols"
    by (auto simp: wf_grid_def list_all_length)
  with assms show ?thesis by (simp add: isObstacle_def wf_grid_def)
qed

lemma readObstacle_wf:
  assumes "wf_grid g rows cols" "0 \<le> r" "r < rows" "0 \<le> c" "c < cols"
  shows "\<exists>b. readObstacle g r c = Inr b"
  using isObstacle_wf[OF assms] by (auto simp: readObstacle_def)

lemma forcedSide_ok:
  assumes "guard \<Longrightarrow> \<exists>b. beside = Inr b" "guard \<Longrightarrow> ahead_ok \<Longrightarrow> \<exists>b. diag = Inr b"
  shows "\<exists>b. forcedSide guard beside ahead_ok diag = Inr b"
  using assms by (auto simp: forcedSide_def split: sum.splits)

lemma hasForcedNeighbor_wf:
  assumes wf: "wf_grid g rows cols" and ib: "inBounds rows cols node"
  shows "\<exists>b. hasForcedNeighbor node dir g rows cols = Inr b"
proof -
  from ib have b: "0 \<le> row node" "row node < rows" "0 \<le> col node" "col node < cols"
    by (simp_all add: inBounds_def)
  have 1: "\<exists>b. forcedSide (col node - 1 \<ge> 0) (readObstacle g (row node) (col node - 1))
           (row node + fst dir \<ge> 0 \<and> row node + fst dir < rows)
           (readObstacle g (row node + fst dir) (col node - 1)) = Inr b"
    using b by (intro forcedSide_ok readObstacle_wf[OF wf]) auto
  have 2: "\<exists>b. forcedSide (col node + 1 < cols) (readObstacle g (row node) (col node + 1))
           (row node + fst dir \<ge> 0 \<and> row node + fst dir < rows)
           (readObstacle g (row node + fst dir) (col node + 1)) = Inr b"
    using b by (intro forcedSide_ok readObstacle_wf[OF wf]) auto
  have 3: "\<exists>b. forcedSide (row node - 1 \<ge> 0) (readObstacle g (row node - 1) (col node))
           (col node + snd dir \<ge> 0 \<and> col node + snd dir < cols)
           (readObstacle g (row node - 1) (col node + snd dir)) = Inr b"
    using b by (intro forcedSide_ok readObstacle_wf[OF wf]) auto
  have 4: "\<exists>b. forcedSide (row node + 1 < rows) (readObstacle g (row node + 1) (col node))
           (col node + snd dir \<ge> 0 \<and> col node + snd dir < cols)
           (readObstacle g (row node + 1) (col node + snd dir)) = Inr b"
    using b by (intro forcedSide_ok readObstacle_wf[OF wf]) auto
  from 1 2 3 4 show ?thesis
    unfolding hasForcedNeighbor_def Let_def
    by (auto split: sum.splits bool.splits)
qed

lemma returnsNormally_Some: "returnsNormally (Some (Inr x))"
  by (simp add: returnsNormally_def)

lemma returnsNormally_if:
  "(c \<Longrightarrow> returnsNormally a) \<Longrightarrow> (\<not> c \<Longrightarrow> returnsNormally b) \<Longrightarrow> returnsNormally (if c then a else b)"
  by simp

lemma returnsNormally_let: "(\<And>y. y = x \<Longrightarrow> returnsNormally (f y)) \<Longrightarrow> returnsNormally (let y = x in f y)"
  by simp

lemma returnsNormally_bind:
  "returnsNormally m \<Longrightarrow> (\<And>y. returnsNormally (f (Inr y))) \<Longrightarrow> returnsNormally (Option.bind m f)"
  by (auto simp: returnsNormally_def)

lemma jump_returnsNormally:
  assumes wf: "wf_grid g rows cols"
  shows "returnsNormally (jump current dir g rows cols goal depth)"
proof (induction "101 - depth" arbitrary: current dir depth)
  case 0
  then have "depth > 100" by simp
  then show ?case by (subst jump.simps) (simp add: returnsNormally_def)
next
  case (Suc n)
  from Suc have n: "n = 101 - (depth + 1)" by simp
  note IH = Suc(1)[OF n]
  show ?case
  proof (subst jump.simps, intro returnsNormally_if returnsNormally_let returnsNormally_Some)
    fix nxt :: pos
    assume "\<not> (row nxt < 0 \<or> rows \<le> row nxt \<or> col nxt < 0 \<or> cols \<le> col nxt)"
    then have ib: "0 \<le> row nxt" "row nxt < rows" "0 \<le> col nxt" "col nxt < cols" by auto
    then have ib': "inBounds rows cols nxt" by (simp add: inBounds_def)
    from isObstacle_wf[OF wf ib] obtain ob where ob: "isObstacle g (row nxt) (col nxt) = Some ob" ..
    from hasForcedNeighbor_wf[OF wf ib'] obtain f where f: "hasForcedNeighbor nxt dir g rows cols = Inr f" ..
    show "returnsNormally (case isObstacle g (row nxt) (col nxt) of
        None \<Rightarrow> Some (Inl TypeError)
      | Some ob \<Rightarrow>
          if ob then Some (Inr None)
          else if row nxt = row goal \<and> col nxt = col goal then Some (Inr (Some nxt))
          else if fst dir \<noteq> 0 \<and> snd dir \<noteq> 0
          then Option.bind (jump nxt (fst dir, 0) g rows cols goal (depth + 1))
                 (\<lambda>r1. case r1 of
                          Inl e \<Rightarrow> Some (Inl e)
                        | Inr (Some jp) \<Rightarrow> Some (Inr (Some nxt))
                        | Inr None \<Rightarrow>
                            Option.bind (jump nxt (0, snd dir) g rows cols goal (depth + 1))
                              (\<lambda>r2. case r2 of
                                       Inl e \<Rightarrow> Some (Inl e)
                                     | Inr (Some jp) \<Rightarrow> Some (Inr (Some nxt))
                                     | Inr None \<Rightarrow>
                                         jump nxt dir g rows cols goal (depth + 1)))
          else (case hasForcedNeighbor nxt dir g rows cols of
                  Inl e \<Rightarrow> Some (Inl e)
                | Inr forced \<Rightarrow>
                    if forced then Some (Inr (Some nxt))
                    else jump nxt dir g rows cols goal (depth + 1)))"
      unfolding ob f option.case sum.case
      by (intro returnsNormally_if returnsNormally_Some returnsNormally_bind IH)
         (auto split: option.split
               intro!: returnsNormally_Some returnsNormally_bind IH IH[unfolded Suc_eq_plus1[symmetric]])
  qed
qed

lemma jump_guard: "jump current dir g rows cols goal (101 + k) = Some (Inr None)"
  by (subst jump.simps) simp

text \<open>
  C9. On every grid whose shape agrees with \<open>rows\<close> and \<open>cols\<close>, from every cell, in every
  direction and at every depth, \<^verbatim>\<open>jump\<close> ends and returns a cell or nothing; beyond
  depth 100 it returns nothing at once, so the recursion is at most 102 calls deep.
\<close>

theorem C9_jump_terminates:
  assumes "wf_grid g rows cols"
  shows "(\<exists>r. jump current dir g rows cols goal depth = Some (Inr r))
         \<and> jump current dir g rows cols goal (101 + k) = Some (Inr None)"
  using jump_returnsNormally[OF assms] jump_guard by (simp add: returnsNormally_def)

theorem C9_jump_terminates_witness:
  "wf_grid (emptyGrid 10 10) 10 10
   \<and> (\<exists>r. jump (Pos 0 0) (0, 1) (emptyGrid 10 10) 10 10 (Pos 0 9) 0 = Some (Inr r))
   \<and> jump (Pos 0 0) (0, 1) (emptyGrid 10 10) 10 10 (Pos 0 9) (101 + 0) = Some (Inr None)"
proof -
  have wf: "wf_grid (emptyGrid 10 10) 10 10"
    by (simp add: wf_grid_def emptyGrid_def list_all_iff)
  from C9_jump_terminates[OF wf, of "Pos 0 0" "(0, 1)" "Pos 0 9" 0 0] wf show ?thesis
    by simp
qed

section \<open>Properties: reads of the line tests stay inside the grid\<close>

lemma lineLoop_step:
  "blocked y0 x0 = Inr False \<Longrightarrow> \<not> (x0 = x1 \<and> y0 = y1) \<Longrightarrow>
   lineLoop blocked x1 y1 dx dy sx sy x0 y0 err =
   lineLoop blocked x1 y1 dx dy sx sy
     (if 2 * err > - dy then x0 + sx else x0)
     (if 2 * err < dx then y0 + sy else y0)
     ((if 2 * err > - dy then err - dy else err) + (if 2 * err < dx then dx else 0))"
  by (subst lineLoop.simps, cases "x0 = x1") (simp_all add: Let_def)

lemma lineLoop_stop:
  "blocked y0 x0 = Inr True \<Longrightarrow> lineLoop blocked x1 y1 dx dy sx sy x0 y0 err = Some (Inr False)"
  "blocked y0 x0 = Inr False \<Longrightarrow> x0 = x1 \<and> y0 = y1 \<Longrightarrow>
     lineLoop blocked x1 y1 dx dy sx sy x0 y0 err = Some (Inr True)"
  by (subst lineLoop.simps, simp)+

text \<open>
  After \<open>i\<close> steps in \<open>x\<close> and \<open>j\<close> steps in \<open>y\<close> the error term is
  \<open>(1 + j) * dx - (1 + i) * dy\<close>. With all \<open>dx\<close> steps in \<open>x\<close> done there is no further
  step in \<open>x\<close>, and likewise in \<open>y\<close>; so the line stays in the box of its end points.
\<close>

lemma bres_no_xstep:
  fixes A B j :: int
  assumes "0 \<le> A" "0 \<le> j" "j < B"
  shows "\<not> 2 * ((1 + j) * A - (1 + A) * B) > - B"
proof -
  have "(1 + j) * A \<le> B * A" using assms by (intro mult_right_mono) auto
  then show ?thesis using assms by (simp add: algebra_simps)
qed

lemma bres_no_ystep:
  fixes A B i :: int
  assumes "0 \<le> B" "0 \<le> i" "i < A"
  shows "\<not> 2 * ((1 + B) * A - (1 + i) * B) < A"
proof -
  have "(1 + i) * B \<le> A * B" using assms by (intro mult_right_mono) auto
  then show ?thesis using assms by (simp add: algebra_simps)
qed

lemma lineLoop_returns:
  fixes A B i j :: int
  assumes sx: "sx = 1 \<or> sx = -1" and sy: "sy = 1 \<or> sy = -1"
    and ok: "\<And>k l. 0 \<le> k \<Longrightarrow> k \<le> A \<Longrightarrow> 0 \<le> l \<Longrightarrow> l \<le> B \<Longrightarrow>
               \<exists>b. blocked (y1 - sy * l) (x1 - sx * k) = Inr b"
  shows "0 \<le> i \<Longrightarrow> i \<le> A \<Longrightarrow> 0 \<le> j \<Longrightarrow> j \<le> B \<Longrightarrow>
    \<exists>v. lineLoop blocked x1 y1 A B sx sy (x1 - sx * (A - i)) (y1 - sy * (B - j))
           ((1 + j) * A - (1 + i) * B) = Some (Inr v)"
proof (induction "nat ((A - i) + (B - j))" arbitrary: i j rule: less_induct)
  case less
  let ?x0 = "x1 - sx * (A - i)" and ?y0 = "y1 - sy * (B - j)"
  let ?E = "(1 + j) * A - (1 + i) * B"
  from less.prems have "0 \<le> A - i" "A - i \<le> A" "0 \<le> B - j" "B - j \<le> B" by auto
  from ok[OF this] obtain ob where ob: "blocked ?y0 ?x0 = Inr ob" by blast
  show ?case
  proof (cases "ob \<or> (?x0 = x1 \<and> ?y0 = y1)")
    case True
    show ?thesis
    proof (cases ob)
      case True
      with ob show ?thesis by (auto simp add: lineLoop_stop(1))
    next
      case False
      with ob \<open>ob \<or> (?x0 = x1 \<and> ?y0 = y1)\<close> show ?thesis
        by (auto simp add: lineLoop_stop(2))
    qed
  next
    case False
    then have ob': "blocked ?y0 ?x0 = Inr False" and nt: "\<not> (?x0 = x1 \<and> ?y0 = y1)"
      using ob by auto
    from nt sx sy have ij: "i < A \<or> j < B" using less.prems by auto
    have A0: "0 \<le> A" and B0: "0 \<le> B" using less.prems by auto
    have xs: "i < A" if "2 * ?E > - B"
    proof (rule ccontr)
      assume "\<not> i < A"
      then have iA: "i = A" using less.prems by simp
      with ij have "j < B" by simp
      from bres_no_xstep[OF A0 less.prems(3) this] that iA show False by simp
    qed
    have ys: "j < B" if "2 * ?E < A"
    proof (rule ccontr)
      assume "\<not> j < B"
      then have jB: "j = B" using less.prems by simp
      with ij have "i < A" by simp
      from bres_no_ystep[OF B0 less.prems(1) this] that jB show False by simp
    qed
    have some: "2 * ?E > - B \<or> 2 * ?E < A" using ij less.prems by linarith
    define i' where "i' = (if 2 * ?E > - B then i + 1 else i)"
    define j' where "j' = (if 2 * ?E < A then j + 1 else j)"
    have b': "0 \<le> i'" "i' \<le> A" "0 \<le> j'" "j' \<le> B"
      using xs ys less.prems by (auto simp: i'_def j'_def)
    have m: "nat ((A - i') + (B - j')) < nat ((A - i) + (B - j))"
      using some xs ys less.prems by (auto simp: i'_def j'_def)
    have eq: "lineLoop blocked x1 y1 A B sx sy ?x0 ?y0 ?E =
          lineLoop blocked x1 y1 A B sx sy (x1 - sx * (A - i')) (y1 - sy * (B - j'))
            ((1 + j') * A - (1 + i') * B)"
      unfolding lineLoop_step[of blocked ?y0 ?x0 x1 y1 A B sx sy ?E, OF ob' nt]
      by (rule arg_cong3[where f = "lineLoop blocked x1 y1 A B sx sy"])
         (auto simp: i'_def j'_def algebra_simps)
    from less.hyps[OF m b'] show ?thesis unfolding eq .
  qed
qed

lemma lineFrom_returns:
  assumes ok: "\<And>y x. min (row a) (row b) \<le> y \<Longrightarrow> y \<le> max (row a) (row b) \<Longrightarrow>
                 min (col a) (col b) \<le> x \<Longrightarrow> x \<le> max (col a) (col b) \<Longrightarrow>
                 \<exists>ob. blocked y x = Inr ob"
  shows "\<exists>v. lineFrom blocked a b = Some (Inr v)"
proof -
  define x0 y0 x1 y1 where "x0 = col a" and "y0 = row a" and "x1 = col b" and "y1 = row b"
  define A B where "A = \<bar>x1 - x0\<bar>" and "B = \<bar>y1 - y0\<bar>"
  define sx sy :: int where "sx = (if x0 < x1 then 1 else -1)" and "sy = (if y0 < y1 then 1 else -1)"
  have s: "sx = 1 \<or> sx = -1" "sy = 1 \<or> sy = -1" by (auto simp: sx_def sy_def)
  have x0: "x0 = x1 - sx * (A - 0)" and y0: "y0 = y1 - sy * (B - 0)"
    by (auto simp: sx_def sy_def A_def B_def)
  have box: "\<exists>ob. blocked (y1 - sy * l) (x1 - sx * k) = Inr ob"
    if "0 \<le> k" "k \<le> A" "0 \<le> l" "l \<le> B" for k l
    using that unfolding x0_def y0_def x1_def y1_def A_def B_def sx_def sy_def
    by (intro ok) (auto split: if_splits)
  have "\<exists>v. lineLoop blocked x1 y1 A B sx sy (x1 - sx * (A - 0)) (y1 - sy * (B - 0))
           ((1 + 0) * A - (1 + 0) * B) = Some (Inr v)"
    by (rule lineLoop_returns[where blocked = blocked and sx = sx and sy = sy and A = A
          and B = B and ?x1.0 = x1 and ?y1.0 = y1 and i = 0 and j = 0, OF s box])
       (auto simp: A_def B_def)
  then have "\<exists>v. lineLoop blocked x1 y1 A B sx sy x0 y0 (A - B) = Some (Inr v)"
    using x0 y0 by simp
  then show ?thesis
    unfolding lineFrom_def Let_def x0_def y0_def x1_def y1_def A_def B_def sx_def sy_def .
qed

lemma lineOfSight_returns:
  assumes wf: "wf_grid g rows cols" and a: "inBounds rows cols a" and b: "inBounds rows cols b"
  shows "\<exists>v. lineOfSight a b g = Some (Inr v)"
  unfolding lineOfSight_def
proof (rule lineFrom_returns)
  fix y x
  assume "min (row a) (row b) \<le> y" "y \<le> max (row a) (row b)"
    "min (col a) (col b) \<le> x" "x \<le> max (col a) (col b)"
  with a b have "0 \<le> y" "y < rows" "0 \<le> x" "x < cols" by (auto simp: inBounds_def)
  from readObstacle_wf[OF wf this] show "\<exists>ob. readObstacle g y x = Inr ob" .
qed

lemma guardedObstacle_wf:
  assumes wf: "wf_grid g rows cols"
  shows "\<exists>ob. guardedObstacle g y x = Inr ob"
proof (cases "y \<ge> 0 \<and> y < int (length g) \<and> x \<ge> 0 \<and> x < int (length (g ! 0))")
  case True
  then have "0 < length g" by auto
  with wf have "int (length (g ! 0)) = cols" by (auto simp: wf_grid_def list_all_length)
  with True wf have "0 \<le> y" "y < rows" "0 \<le> x" "x < cols" by (auto simp: wf_grid_def)
  from readObstacle_wf[OF wf this] True show ?thesis by (simp add: guardedObstacle_def)
next
  case False
  then show ?thesis by (auto simp: guardedObstacle_def)
qed

lemma hasLineOfSight_returns:
  assumes wf: "wf_grid g rows cols"
  shows "\<exists>v. hasLineOfSight a b g = Some (Inr v)"
  unfolding hasLineOfSight_def
  by (rule lineFrom_returns) (rule guardedObstacle_wf[OF wf])

lemma mathRound_between:
  fixes lo hi :: int
  assumes "real_of_int lo \<le> q" "q \<le> real_of_int hi"
  shows "lo \<le> mathRound q \<and> mathRound q \<le> hi"
  using assms unfolding mathRound_def by (auto simp: le_floor_iff floor_le_iff)

lemma lerp_between:
  assumes mono: "mono fl" and ints: "\<And>k::int. fl (real_of_int k) = real_of_int k"
    and t: "0 \<le> t" "t \<le> 1"
  shows "min a b \<le> lerp fl a b t \<and> lerp fl a b t \<le> max a b"
proof -
  define p where "p = fl (real_of_int (b - a) * t)"
  have f0: "fl 0 = 0" using ints[of 0] by simp
  have fd: "fl (real_of_int (b - a)) = real_of_int (b - a)" by (rule ints)
  have p: "min 0 (real_of_int (b - a)) \<le> p \<and> p \<le> max 0 (real_of_int (b - a))"
  proof (cases "a \<le> b")
    case True
    then have "0 \<le> real_of_int (b - a) * t" "real_of_int (b - a) * t \<le> real_of_int (b - a)"
      using t by (auto simp: mult_left_le)
    then have "fl 0 \<le> p" "p \<le> fl (real_of_int (b - a))"
      unfolding p_def using mono by (auto dest: monoD)
    with True show ?thesis unfolding f0 fd by simp
  next
    case False
    then have n: "real_of_int (b - a) \<le> 0" by simp
    have "real_of_int (b - a) * t \<le> 0" using n t by (simp add: mult_nonpos_nonneg)
    moreover have "real_of_int (b - a) \<le> real_of_int (b - a) * t"
      using n t mult_left_mono_neg[of t 1 "real_of_int (b - a)"] by simp
    ultimately have "p \<le> fl 0" "fl (real_of_int (b - a)) \<le> p"
      unfolding p_def using mono by (auto dest: monoD)
    with False show ?thesis unfolding f0 fd by simp
  qed
  define q where "q = fl (real_of_int a + p)"
  have "real_of_int a + min 0 (real_of_int (b - a)) \<le> real_of_int a + p"
       "real_of_int a + p \<le> real_of_int a + max 0 (real_of_int (b - a))"
    using p by auto
  then have "fl (real_of_int (min a b)) \<le> q" "q \<le> fl (real_of_int (max a b))"
    unfolding q_def by (auto intro!: monoD[OF mono] simp: min_def max_def)
  then have "real_of_int (min a b) \<le> q" "q \<le> real_of_int (max a b)"
    by (simp_all add: ints)
  from mathRound_between[OF this] show ?thesis
    unfolding lerp_def q_def p_def .
qed

lemma crossesFrom_returns:
  assumes wf: "wf_grid g rows cols" and a: "inBounds rows cols a" and b: "inBounds rows cols b"
    and mono: "mono fl" and ints: "\<And>k::int. fl (real_of_int k) = real_of_int k"
    and steps: "0 \<le> steps"
  shows "\<forall>i\<in>set is. 0 \<le> i \<and> i \<le> steps \<Longrightarrow> \<exists>v. crossesFrom fl a b g steps is = Inr v"
proof (induction "is")
  case Nil
  then show ?case by auto
next
  case (Cons i "is")
  define t where "t = (if steps = 0 then 0 else fl (real_of_int i / real_of_int steps))"
  have t: "0 \<le> t \<and> t \<le> 1"
  proof (cases "steps = 0")
    case True
    then show ?thesis by (simp add: t_def)
  next
    case False
    with steps Cons.prems have "0 \<le> real_of_int i / real_of_int steps"
      "real_of_int i / real_of_int steps \<le> 1" by auto
    then have "fl 0 \<le> t" "t \<le> fl 1" using False mono by (auto simp: t_def dest: monoD)
    then show ?thesis using ints[of 0] ints[of 1] by simp
  qed
  have r: "min (row a) (row b) \<le> lerp fl (row a) (row b) t
           \<and> lerp fl (row a) (row b) t \<le> max (row a) (row b)"
    using t by (intro lerp_between[OF mono ints]) auto
  have c: "min (col a) (col b) \<le> lerp fl (col a) (col b) t
           \<and> lerp fl (col a) (col b) t \<le> max (col a) (col b)"
    using t by (intro lerp_between[OF mono ints]) auto
  from r c a b have "0 \<le> lerp fl (row a) (row b) t" "lerp fl (row a) (row b) t < rows"
    "0 \<le> lerp fl (col a) (col b) t" "lerp fl (col a) (col b) t < cols"
    by (auto simp: inBounds_def)
  from readObstacle_wf[OF wf this] obtain ob where
    "readObstacle g (lerp fl (row a) (row b) t) (lerp fl (col a) (col b) t) = Inr ob" ..
  with Cons show ?case by (auto simp: Let_def t_def)
qed

lemma pathCrossesObstacle_returns:
  assumes wf: "wf_grid g rows cols" and a: "inBounds rows cols a" and b: "inBounds rows cols b"
    and mono: "mono fl" and ints: "\<And>k::int. fl (real_of_int k) = real_of_int k"
  shows "\<exists>v. pathCrossesObstacle fl a b g = Inr v"
  unfolding pathCrossesObstacle_def Let_def
  by (rule crossesFrom_returns[OF wf a b mono ints]) auto

lemma readObstacle_raises_iff:
  assumes "wf_grid g rows cols"
  shows "(\<exists>e. readObstacle g r c = Inl e) \<longleftrightarrow> \<not> (0 \<le> r \<and> r < rows \<and> 0 \<le> c \<and> c < cols)"
proof
  assume "\<exists>e. readObstacle g r c = Inl e"
  then show "\<not> (0 \<le> r \<and> r < rows \<and> 0 \<le> c \<and> c < cols)"
    using readObstacle_wf[OF assms, of r c] by auto
next
  assume n: "\<not> (0 \<le> r \<and> r < rows \<and> 0 \<le> c \<and> c < cols)"
  show "\<exists>e. readObstacle g r c = Inl e"
  proof (cases "0 \<le> r \<and> r < rows")
    case True
    then have "nat r < length g" using assms by (simp add: wf_grid_def nat_less_iff)
    with assms have "int (length (g ! nat r)) = cols" by (auto simp: wf_grid_def list_all_length)
    with n True show ?thesis by (auto simp: readObstacle_def isObstacle_def)
  next
    case False
    with assms show ?thesis by (auto simp: readObstacle_def isObstacle_def wf_grid_def)
  qed
qed

text \<open>
  C10. On a grid whose shape agrees with \<open>rows\<close> and \<open>cols\<close>, between two positions inside
  the grid, the line-of-sight test of Theta* and the segment test of RRT end without the
  error that a read outside the grid raises (and only such a read raises it, by
  \<open>readObstacle_raises_iff\<close>): every cell they read is inside the grid. For the segment
  test this holds for every rounding \<open>fl\<close> of the arithmetic that is monotone and exact on
  the integers, as the rounding of doubles is on the integers of a grid.
\<close>

theorem C10_line_reads_in_bounds:
  assumes "wf_grid g rows cols" and "inBounds rows cols a" and "inBounds rows cols b"
    and "mono fl" and "\<forall>k::int. fl (real_of_int k) = real_of_int k"
  shows "(\<exists>v. lineOfSight a b g = Some (Inr v)) \<and> (\<exists>v. pathCrossesObstacle fl a b g = Inr v)"
  using lineOfSight_returns[OF assms(1-3)] pathCrossesObstacle_returns[OF assms(1-4)] assms(5)
  by simp

theorem C10_line_reads_in_bounds_witness:
  "wf_grid (emptyGrid 10 10) 10 10 \<and> inBounds 10 10 (Pos 0 0) \<and> inBounds 10 10 (Pos 3 7)
   \<and> mono (\<lambda>x::real. x)
   \<and> (\<exists>v. lineOfSight (Pos 0 0) (Pos 3 7) (emptyGrid 10 10) = Some (Inr v))
   \<and> (\<exists>v. pathCrossesObstacle (\<lambda>x. x) (Pos 0 0) (Pos 3 7) (emptyGrid 10 10) = Inr v)"
proof -
  have wf: "wf_grid (emptyGrid 10 10) 10 10"
    by (simp add: wf_grid_def emptyGrid_def list_all_iff)
  have a: "inBounds 10 10 (Pos 0 0)" and b: "inBounds 10 10 (Pos 3 7)"
    by (simp_all add: inBounds_def)
  have m: "mono (\<lambda>x::real. x)" by (simp add: mono_def)
  have i: "\<forall>k::int. (\<lambda>x::real. x) (real_of_int k) = real_of_int k" by simp
  from C10_line_reads_in_bounds[OF wf a b m i] wf a b m show ?thesis by simp
qed

section \<open>Properties: the edges of the navigation mesh\<close>

lemma forEach_invariant:
  assumes "forEach f xs s = Some (Inr s')" and "P s"
    and "\<And>x t t'. x \<in> set xs \<Longrightarrow> P t \<Longrightarrow> f x t = Some (Inr t') \<Longrightarrow> P t'"
  shows "P s'"
  using assms
proof (induction xs arbitrary: s)
  case Nil
  then show ?case by simp
next
  case (Cons x xs)
  from Cons.prems(1) obtain t where t: "f x s = Some (Inr t)" and rest: "forEach f xs t = Some (Inr s')"
    by (auto split: option.splits sum.splits)
  from Cons.prems(3)[OF _ Cons.prems(2) t] have "P t" by simp
  from Cons.IH[OF rest this] Cons.prems(3) show ?case by auto
qed

lemma connect_sound:
  assumes "connect g ws i j es = Some (Inr es')" "list_all (edgeSound g ws) es" "i < j" "j < length ws"
  shows "list_all (edgeSound g ws) es'"
  using assms
  by (auto simp: connect_def Let_def edgeSound_def split: if_splits sum.splits Option.bind_splits)

lemma generateNavMesh_sound:
  assumes "generateNavMesh g rows cols = Some (Inr nm)"
  shows "list_all (edgeSound g (waypoints nm)) (edges nm)"
proof -
  from assms obtain ws es where
    es: "forEach (\<lambda>i. forEach (\<lambda>j. connect g ws i j) [i + 1..<length ws]) [0..<length ws] [] = Some (Inr es)"
    and nm: "nm = \<lparr>waypoints = ws, edges = es\<rparr>"
    by (auto simp: generateNavMesh_def split: Option.bind_splits sum.splits)
  have "list_all (edgeSound g ws) es"
  proof (rule forEach_invariant[where P = "list_all (edgeSound g ws)", OF es])
    show "list_all (edgeSound g ws) []" by simp
  next
    fix i t t'
    assume i: "i \<in> set [0..<length ws]" and t: "list_all (edgeSound g ws) t"
      and run: "forEach (\<lambda>j. connect g ws i j) [i + 1..<length ws] t = Some (Inr t')"
    show "list_all (edgeSound g ws) t'"
    proof (rule forEach_invariant[where P = "list_all (edgeSound g ws)", OF run t])
      fix j u u'
      assume "j \<in> set [i + 1..<length ws]" "list_all (edgeSound g ws) u"
        "connect g ws i j u = Some (Inr u')"
      then show "list_all (edgeSound g ws) u'"
        by (intro connect_sound[of g ws i j u u']) auto
    qed
  qed
  with nm show ?thesis by simp
qed

lemma corner_waypoints:
  "forEach (\<lambda>r. forEach (\<lambda>c. aroundObstacle cornerGrid 2 2 r c) [0..2 - 1]) [0..2 - 1] [] =
     Some (Inr [Waypoint 0 (Pos 0 1), Waypoint 1 (Pos 1 0), Waypoint 2 (Pos 1 1)])"
  by code_simp

lemma corner_lattice: "lattice 2 2 = []"
  by code_simp

lemma corner_los:
  "hasLineOfSight (Pos 0 1) (Pos 1 0) cornerGrid = Some (Inr True)"
  "hasLineOfSight (Pos 0 1) (Pos 1 1) cornerGrid = Some (Inr True)"
  "hasLineOfSight (Pos 1 0) (Pos 1 1) cornerGrid = Some (Inr True)"
  by code_simp+

lemma sqrt2_le_15: "\<not> 15 < sqrt 2"
  using real_sqrt_less_iff[of 2 225] by simp

lemma corner_distance:
  "distance (Pos 0 1) (Pos 1 0) = sqrt 2"
  "distance (Pos 0 1) (Pos 1 1) = 1"
  "distance (Pos 1 0) (Pos 1 1) = 1"
  by (simp_all add: distance_def)

lemma corner_mesh: "generateNavMesh cornerGrid 2 2 = Some (Inr cornerMesh)"
  unfolding generateNavMesh_def corner_waypoints corner_lattice
  by (simp add: connect_def corner_distance corner_los sqrt2_le_15 cornerMesh_def upt_rec)

lemma lineLoop_cells:
  assumes "lineLoop blocked x1 y1 dx dy sx sy x0 y0 err = Some (Inr True)"
  shows "\<exists>cells. lineCells x1 y1 dx dy sx sy x0 y0 err = Some cells
           \<and> (\<forall>c\<in>set cells. blocked (row c) (col c) = Inr False)"
proof -
  have "blocked = blocked \<longrightarrow> (Inr True :: error + bool) = Inr True
        \<longrightarrow> (\<exists>cells. lineCells x1 y1 dx dy sx sy x0 y0 err = Some cells
               \<and> (\<forall>c\<in>set cells. blocked (row c) (col c) = Inr False))"
  proof (rule lineLoop.raw_induct[where
        P = "\<lambda>bl x1 y1 dx dy sx sy x0 y0 err out. bl = blocked \<longrightarrow> out = Inr True
               \<longrightarrow> (\<exists>cells. lineCells x1 y1 dx dy sx sy x0 y0 err = Some cells
                      \<and> (\<forall>c\<in>set cells. blocked (row c) (col c) = Inr False))",
        OF _ assms], goal_cases)
    case (1 loop bl x1 y1 dx dy sx sy x0 y0 err out)
    show ?case
    proof (intro impI)
      assume bl: "bl = blocked" and out: "out = Inr True"
      from 1(2) bl out have free: "blocked y0 x0 = Inr False"
        by (auto split: sum.splits if_splits)
      show "\<exists>cells. lineCells x1 y1 dx dy sx sy x0 y0 err = Some cells
              \<and> (\<forall>c\<in>set cells. blocked (row c) (col c) = Inr False)"
      proof (cases "x0 = x1 \<and> y0 = y1")
        case True
        then have "lineCells x1 y1 dx dy sx sy x0 y0 err = Some [Pos y0 x0]"
          by (subst lineCells.simps) simp
        with free show ?thesis by simp
      next
        case False
        define x0' where "x0' = (if 2 * err > - dy then x0 + sx else x0)"
        define y0' where "y0' = (if 2 * err < dx then y0 + sy else y0)"
        define err' where "err' = (if 2 * err < dx then (if 2 * err > - dy then err - dy else err) + dx
                                   else (if 2 * err > - dy then err - dy else err))"
        from 1(2) bl out free False
        have rec: "loop blocked x1 y1 dx dy sx sy x0' y0' err' = Some (Inr True)"
          unfolding x0'_def y0'_def err'_def by (cases "x0 = x1") (simp_all add: Let_def)
        from 1(1)[OF rec] obtain cells where
          cells: "lineCells x1 y1 dx dy sx sy x0' y0' err' = Some cells"
          and ok: "\<forall>c\<in>set cells. blocked (row c) (col c) = Inr False" by auto
        have "lineCells x1 y1 dx dy sx sy x0 y0 err = Some (Pos y0 x0 # cells)"
          using False cells unfolding x0'_def y0'_def err'_def
          by (subst lineCells.simps, cases "x0 = x1") (simp_all add: Let_def)
        with ok free show ?thesis by simp
      qed
    qed
  qed
  then show ?thesis by simp
qed

lemma lineFrom_cells:
  assumes "lineFrom blocked a b = Some (Inr True)"
  shows "\<exists>cells. segmentCells a b = Some cells
           \<and> (\<forall>c\<in>set cells. blocked (row c) (col c) = Inr False)"
  using lineLoop_cells[OF assms[unfolded lineFrom_def Let_def]]
  unfolding segmentCells_def Let_def .

lemma guardedObstacle_free:
  assumes wf: "wf_grid g rows cols" and f: "guardedObstacle g y x = Inr False"
  shows "isObstacle g y x \<noteq> Some True"
proof (cases "y \<ge> 0 \<and> y < int (length g) \<and> x \<ge> 0 \<and> x < int (length (g ! 0))")
  case True
  with f have "readObstacle g y x = Inr False" by (simp add: guardedObstacle_def)
  then show ?thesis by (auto simp: readObstacle_def split: option.splits)
next
  case False
  show ?thesis
  proof (cases "0 \<le> y \<and> y < int (length g)")
    case True
    then have "nat y < length g" "0 < length g" by auto
    with wf have "int (length (g ! nat y)) = cols" "int (length (g ! 0)) = cols"
      by (auto simp: wf_grid_def list_all_length)
    then have "length (g ! nat y) = length (g ! 0)" by simp
    with False True have "isObstacle g y x = None" by (auto simp: isObstacle_def)
    then show ?thesis by simp
  next
    case False
    then have "isObstacle g y x = None" by (auto simp: isObstacle_def)
    then show ?thesis by simp
  qed
qed

lemma hasLineOfSight_cells:
  assumes wf: "wf_grid g rows cols" and los: "hasLineOfSight a b g = Some (Inr True)"
  shows "\<exists>cells. segmentCells a b = Some cells \<and> (\<forall>c\<in>set cells. \<not> obstacleCell g c)"
proof -
  from lineFrom_cells[OF los[unfolded hasLineOfSight_def]] obtain cells where
    "segmentCells a b = Some cells" "\<forall>c\<in>set cells. guardedObstacle g (row c) (col c) = Inr False"
    by blast
  with guardedObstacle_free[OF wf] show ?thesis unfolding obstacleCell_def by blast
qed

lemma lineOfSight_cells:
  assumes "lineOfSight a b g = Some (Inr True)"
  shows "\<exists>cells. segmentCells a b = Some cells
           \<and> (\<forall>c\<in>set cells. isObstacle g (row c) (col c) = Some False)"
proof -
  from lineFrom_cells[OF assms[unfolded lineOfSight_def]] obtain cells where
    "segmentCells a b = Some cells" "\<forall>c\<in>set cells. readObstacle g (row c) (col c) = Inr False"
    by blast
  moreover have "isObstacle g y x = Some False" if "readObstacle g y x = Inr False" for y x
    using that by (auto simp: readObstacle_def split: option.splits)
  ultimately show ?thesis by blast
qed

lemma block_waypoints:
  "forEach (\<lambda>r. forEach (\<lambda>c. aroundObstacle blockGrid 2 3 r c) [0..3 - 1]) [0..2 - 1] [] =
     Some (Inr [Waypoint 0 (Pos 0 0), Waypoint 1 (Pos 0 1), Waypoint 2 (Pos 0 2),
                Waypoint 3 (Pos 1 0), Waypoint 4 (Pos 1 2)])"
  by code_simp

lemma block_lattice: "lattice 2 2 = []" "lattice 2 3 = [2]"
  by code_simp+

lemma block_los:
  "hasLineOfSight (Pos 0 0) (Pos 0 1) blockGrid = Some (Inr True)"
  "hasLineOfSight (Pos 0 0) (Pos 0 2) blockGrid = Some (Inr True)"
  "hasLineOfSight (Pos 0 0) (Pos 1 0) blockGrid = Some (Inr True)"
  "hasLineOfSight (Pos 0 0) (Pos 1 2) blockGrid = Some (Inr True)"
  "hasLineOfSight (Pos 0 1) (Pos 0 2) blockGrid = Some (Inr True)"
  "hasLineOfSight (Pos 0 1) (Pos 1 0) blockGrid = Some (Inr True)"
  "hasLineOfSight (Pos 0 1) (Pos 1 2) blockGrid = Some (Inr True)"
  "hasLineOfSight (Pos 0 2) (Pos 1 0) blockGrid = Some (Inr True)"
  "hasLineOfSight (Pos 0 2) (Pos 1 2) blockGrid = Some (Inr True)"
  "hasLineOfSight (Pos 1 0) (Pos 1 2) blockGrid = Some (Inr False)"
  "hasLineOfSight (Pos 1 2) (Pos 0 0) blockGrid = Some (Inr False)"
  by code_simp+

lemma sqrt_le_15: "\<not> 15 < sqrt 5" "\<not> 15 < sqrt 4"
  using real_sqrt_less_iff[of 5 225] real_sqrt_less_iff[of 4 225] by simp_all

lemma block_distance:
  "distance (Pos 0 0) (Pos 0 1) = 1"
  "distance (Pos 0 0) (Pos 0 2) = 2"
  "distance (Pos 0 0) (Pos 1 0) = 1"
  "distance (Pos 0 0) (Pos 1 2) = sqrt 5"
  "distance (Pos 0 1) (Pos 0 2) = 1"
  "distance (Pos 0 1) (Pos 1 0) = sqrt 2"
  "distance (Pos 0 1) (Pos 1 2) = sqrt 2"
  "distance (Pos 0 2) (Pos 1 0) = sqrt 5"
  "distance (Pos 0 2) (Pos 1 2) = 1"
  "distance (Pos 1 0) (Pos 1 2) = 2"
  by (simp_all add: distance_def)

lemma block_mesh: "generateNavMesh blockGrid 2 3 = Some (Inr blockMesh)"
  unfolding generateNavMesh_def block_waypoints block_lattice
  by (simp add: connect_def Let_def block_distance block_los sqrt2_le_15 sqrt_le_15 blockMesh_def upt_rec)

lemma block_segments:
  "segmentCells (Pos 0 0) (Pos 1 2) = Some [Pos 0 0, Pos 0 1, Pos 1 2]"
  "segmentCells (Pos 1 2) (Pos 0 0) = Some [Pos 1 2, Pos 1 1, Pos 0 0]"
  by code_simp+

lemma block_wf: "wf_grid blockGrid 2 3"
  by (simp add: wf_grid_def blockGrid_def)

text \<open>
  C8, as the code has it. On a rectangular grid, every edge of a mesh that
  \<^verbatim>\<open>generateNavMesh\<close> returns leads from a waypoint to a later waypoint of the mesh; no
  cell of the rasterised segment from the first to the second is an obstacle; their
  Euclidean distance is at most 15; and the stored cost is that distance.
\<close>

theorem C8_navmesh_edges_clear:
  assumes "wf_grid g rows cols" and "generateNavMesh g rows cols = Some (Inr nm)"
    and "e \<in> set (edges nm)"
  shows "fromId e < toId e \<and> toId e < length (waypoints nm)
         \<and> clearSegment g (wpos (waypoints nm ! fromId e)) (wpos (waypoints nm ! toId e))
         \<and> distance (wpos (waypoints nm ! fromId e)) (wpos (waypoints nm ! toId e)) \<le> 15
         \<and> cost e = distance (wpos (waypoints nm ! fromId e)) (wpos (waypoints nm ! toId e))"
proof -
  from generateNavMesh_sound[OF assms(2)] assms(3)
  have s: "edgeSound g (waypoints nm) e" by (simp add: list_all_iff)
  then have "hasLineOfSight (wpos (waypoints nm ! fromId e)) (wpos (waypoints nm ! toId e)) g
               = Some (Inr True)"
    by (simp add: edgeSound_def)
  from hasLineOfSight_cells[OF assms(1) this]
  have "clearSegment g (wpos (waypoints nm ! fromId e)) (wpos (waypoints nm ! toId e))"
    by (auto simp: clearSegment_def list_all_iff)
  with s show ?thesis by (simp add: edgeSound_def)
qed

theorem C8_navmesh_edges_clear_witness:
  "wf_grid blockGrid 2 3
   \<and> generateNavMesh blockGrid 2 3 = Some (Inr blockMesh)
   \<and> \<lparr>fromId = 0, toId = 4, cost = sqrt 5\<rparr> \<in> set (edges blockMesh)
   \<and> segmentCells (Pos 0 0) (Pos 1 2) = Some [Pos 0 0, Pos 0 1, Pos 1 2]
   \<and> clearSegment blockGrid (Pos 0 0) (Pos 1 2)
   \<and> distance (Pos 0 0) (Pos 1 2) \<le> 15
   \<and> sqrt 5 = distance (Pos 0 0) (Pos 1 2)"
proof -
  have e: "\<lparr>fromId = 0, toId = 4, cost = sqrt 5\<rparr> \<in> set (edges blockMesh)"
    by (simp add: blockMesh_def)
  from C8_navmesh_edges_clear[OF block_wf block_mesh e] e block_wf block_mesh block_segments(1)
  show ?thesis by (simp add: blockMesh_def)
qed

text \<open>
  C8 as stated, for the segment between the two waypoints of an edge, fails in the
  direction that the code does not test: on \<open>blockGrid\<close> the mesh has the edge from
  waypoint 0 at (0,0) to waypoint 4 at (1,2), and the rasterised segment from (1,2) to
  (0,0) passes through the obstacle (1,1). The searches follow an edge in both
  directions.
\<close>

theorem C8_edge_blocked_backwards:
  "generateNavMesh blockGrid 2 3 = Some (Inr blockMesh)
   \<and> \<lparr>fromId = 0, toId = 4, cost = sqrt 5\<rparr> \<in> set (edges blockMesh)
   \<and> wpos (waypoints blockMesh ! 0) = Pos 0 0
   \<and> wpos (waypoints blockMesh ! 4) = Pos 1 2
   \<and> segmentCells (Pos 1 2) (Pos 0 0) = Some [Pos 1 2, Pos 1 1, Pos 0 0]
   \<and> obstacleCell blockGrid (Pos 1 1)
   \<and> \<not> clearSegment blockGrid (Pos 1 2) (Pos 0 0)
   \<and> hasLineOfSight (Pos 1 2) (Pos 0 0) blockGrid = Some (Inr False)"
  by (simp add: block_mesh block_segments block_los clearSegment_def obstacleCell_def)
     (simp add: blockMesh_def blockGrid_def isObstacle_def)

section \<open>Properties: the funnel\<close>

lemma visibleFrom_returns:
  assumes wf: "wf_grid g rows cols" and "a \<noteq> None" "b \<noteq> None"
  shows "\<exists>v. visibleFrom a b g = Some (Inr v)"
  using assms(2,3) hasLineOfSight_returns[OF wf]
  by (auto simp: visibleFrom_def split: option.splits)

lemma scan_stops:
  assumes wf: "wf_grid g rows cols" and defined: "list_all (\<lambda>p. p \<noteq> None) wp"
    and cur: "cur < length wp"
  shows "cur + 2 \<le> i \<Longrightarrow> i \<le> length wp \<Longrightarrow> far = i - 1 \<Longrightarrow>
     (\<forall>k\<in>{cur + 2..far}. visibleFrom (wp ! cur) (wp ! k) g = Some (Inr True)) \<Longrightarrow>
     \<exists>f. scan wp g cur [i..<length wp] far = Some (Inr f) \<and> scanStop wp g cur f"
proof (induction "length wp - i" arbitrary: i far)
  case 0
  then have i: "i = length wp" by simp
  with 0 cur show ?case by (auto simp: scanStop_def)
next
  case (Suc n)
  then have i: "i < length wp" by simp
  then have upt: "[i..<length wp] = i # [Suc i..<length wp]" by (simp add: upt_conv_Cons)
  from defined cur i have "wp ! cur \<noteq> None" "wp ! i \<noteq> None" by (auto simp: list_all_length)
  from visibleFrom_returns[OF wf this] obtain v where
    v: "visibleFrom (wp ! cur) (wp ! i) g = Some (Inr v)" ..
  show ?case
  proof (cases v)
    case False
    with v Suc.prems i cur show ?thesis
      unfolding upt by (auto simp: scanStop_def)
  next
    case True
    have all: "\<forall>k\<in>{cur + 2..i}. visibleFrom (wp ! cur) (wp ! k) g = Some (Inr True)"
    proof
      fix k assume "k \<in> {cur + 2..i}"
      then have "k \<in> {cur + 2..far} \<or> k = i" using Suc.prems by auto
      with Suc.prems(4) v True show "visibleFrom (wp ! cur) (wp ! k) g = Some (Inr True)" by auto
    qed
    have "\<exists>f. scan wp g cur [Suc i..<length wp] i = Some (Inr f) \<and> scanStop wp g cur f"
      using Suc.hyps(2) Suc.prems i all
      by (intro Suc.hyps(1)) auto
    with v True show ?thesis unfolding upt by simp
  qed
qed

lemma sorted_wrt_less_length:
  assumes "sorted_wrt (<) (is :: nat list)" "set is \<subseteq> {..<n}"
  shows "length is \<le> n"
proof -
  from assms(1) have "distinct is" by (simp add: strict_sorted_iff)
  then have "length is = card (set is)" by (simp add: distinct_card)
  also have "\<dots> \<le> card {..<n}" using assms(2) by (intro card_mono) auto
  finally show ?thesis by simp
qed

lemma funnelLoop_returns:
  assumes wf: "wf_grid g rows cols" and defined: "list_all (\<lambda>p. p \<noteq> None) wp"
  shows "is \<noteq> [] \<Longrightarrow> last is = cur \<Longrightarrow> funnelInv wp g is \<Longrightarrow>
     \<exists>is'. funnelLoop wp g cur (map ((!) wp) is) = Some (Inr (map ((!) wp) is'))
          \<and> funnelInv wp g is' \<and> hd is' = hd is \<and> is' \<noteq> [] \<and> last is' = length wp - 1"
proof (induction "length wp - cur" arbitrary: cur "is" rule: less_induct)
  case less
  from less.prems have cur: "cur < length wp"
    using last_in_set[of "is"] by (auto simp: funnelInv_def)
  show ?case
  proof (cases "int cur < int (length wp) - 1")
    case False
    with cur have "cur = length wp - 1" by simp
    with False less.prems show ?thesis
      by (subst funnelLoop.simps) auto
  next
    case True
    have "\<exists>f. scan wp g cur [cur + 2..<length wp] (cur + 1) = Some (Inr f) \<and> scanStop wp g cur f"
      using True by (intro scan_stops[OF wf defined cur]) auto
    then obtain f where f: "scan wp g cur [cur + 2..<length wp] (cur + 1) = Some (Inr f)"
      and stop: "scanStop wp g cur f" by blast
    from stop have cf: "cur < f" "f < length wp" by (auto simp: scanStop_def)
    have le: "\<forall>x\<in>set is. x \<le> cur"
    proof
      fix x assume x: "x \<in> set is"
      from less.prems have s: "sorted_wrt (<) is" by (simp add: funnelInv_def)
      from x obtain k where k: "k < length is" "is ! k = x" by (auto simp: in_set_conv_nth)
      show "x \<le> cur"
      proof (cases "k = length is - 1")
        case True
        with k less.prems show ?thesis by (simp add: last_conv_nth)
      next
        case False
        with k have "k < length is - 1" by simp
        with s k have "is ! k < is ! (length is - 1)" by (auto simp: sorted_wrt_iff_nth_less)
        with k less.prems show ?thesis by (simp add: last_conv_nth)
      qed
    qed
    have inv': "funnelInv wp g (is @ [f])"
      using less.prems stop cf le
      by (auto simp: funnelInv_def sorted_wrt_append successively_append_iff)
    have m: "length wp - f < length wp - cur" using cf by simp
    from less.hyps[OF m _ _ inv', of ] obtain is' where
      is': "funnelLoop wp g f (map ((!) wp) (is @ [f])) = Some (Inr (map ((!) wp) is'))"
        "funnelInv wp g is'" "hd is' = hd (is @ [f])" "is' \<noteq> []" "last is' = length wp - 1"
      by auto
    have "funnelLoop wp g cur (map ((!) wp) is) = funnelLoop wp g f (map ((!) wp) (is @ [f]))"
      using True f by (subst funnelLoop.simps) simp
    with is' less.prems(1) show ?thesis by auto
  qed
qed

lemma funnel_short:
  assumes "length wp \<le> 2"
  shows "funnelInv wp g [0..<length wp]"
proof -
  from assms consider "length wp = 0" | "length wp = 1" | "length wp = 2" by linarith
  then show ?thesis
  proof cases
    case 1
    then show ?thesis by (simp add: funnelInv_def)
  next
    case 2
    then show ?thesis by (simp add: funnelInv_def)
  next
    case 3
    then have "[0..<length wp] = [0, 1]" by (simp add: upt_rec)
    with 3 show ?thesis by (simp add: funnelInv_def scanStop_def)
  qed
qed

lemma funnel_wall:
  "funnelAlgorithm wallPath wallGrid = Some (Inr wallPath)"
  "visibleFrom (wallPath ! 0) (wallPath ! 1) wallGrid = Some (Inr False)"
  by code_simp+

text \<open>
  C7, as the code has it. On a rectangular grid, for every path of positions, the funnel
  returns the elements of the input at strictly increasing indices; the output is no
  longer than the input and, for a non-empty input, starts with its first and ends with
  its last element. Each index after the first is where the scan from the index before
  it ends (\<open>scanStop\<close>): the scan takes the anchor's successor without a test, extends
  while the next index is visible from the anchor, and ends at the first index that is
  not.
\<close>

theorem C7_funnel_subsequence:
  assumes "wf_grid g rows cols" and "list_all (\<lambda>p. p \<noteq> None) wp"
  shows "\<exists>out is. funnelAlgorithm wp g = Some (Inr out) \<and> out = map ((!) wp) is
           \<and> sorted_wrt (<) is \<and> set is \<subseteq> {..<length wp}
           \<and> length out \<le> length wp
           \<and> (wp \<noteq> [] \<longrightarrow> hd is = 0 \<and> last is = length wp - 1 \<and> last out = last wp)
           \<and> successively (scanStop wp g) is"
proof -
  have "\<exists>is. funnelAlgorithm wp g = Some (Inr (map ((!) wp) is)) \<and> funnelInv wp g is
          \<and> (wp \<noteq> [] \<longrightarrow> is \<noteq> [] \<and> hd is = 0 \<and> last is = length wp - 1)"
  proof (cases "length wp \<le> 2")
    case True
    have "map ((!) wp) [0..<length wp] = wp" by (rule map_nth)
    moreover have "wp \<noteq> [] \<longrightarrow> [0..<length wp] \<noteq> [] \<and> hd [0..<length wp] = 0
        \<and> last [0..<length wp] = length wp - 1"
      by (cases wp) (simp_all add: hd_upt del: upt_Suc)
    ultimately show ?thesis
      using True funnel_short[OF True, of g]
      by (intro exI[of _ "[0..<length wp]"]) (simp add: funnelAlgorithm_def del: upt_Suc)
  next
    case False
    then have n: "0 < length wp" by (cases wp) simp_all
    have inv: "funnelInv wp g [0]" using n by (simp add: funnelInv_def)
    from funnelLoop_returns[OF assms, of "[0]" 0, OF _ _ inv] obtain is' where
      "funnelLoop wp g 0 (map ((!) wp) [0]) = Some (Inr (map ((!) wp) is'))"
      "funnelInv wp g is'" "hd is' = hd [0]" "is' \<noteq> []" "last is' = length wp - 1"
      by auto
    with False show ?thesis by (auto simp: funnelAlgorithm_def)
  qed
  then obtain "is" where r: "funnelAlgorithm wp g = Some (Inr (map ((!) wp) is))"
    and inv: "funnelInv wp g is"
    and ends: "wp \<noteq> [] \<longrightarrow> is \<noteq> [] \<and> hd is = 0 \<and> last is = length wp - 1"
    by blast
  from inv have len: "length (map ((!) wp) is) \<le> length wp"
    using sorted_wrt_less_length[of "is" "length wp"] by (simp add: funnelInv_def)
  have lst: "wp \<noteq> [] \<longrightarrow> last (map ((!) wp) is) = last wp"
    using ends by (auto simp: last_map last_conv_nth)
  from r inv len lst ends show ?thesis
    unfolding funnelInv_def by blast
qed

theorem C7_funnel_subsequence_witness:
  "wf_grid wallGrid 1 5 \<and> list_all (\<lambda>p. p \<noteq> None) wallPath
   \<and> (\<exists>out is. funnelAlgorithm wallPath wallGrid = Some (Inr out) \<and> out = map ((!) wallPath) is
        \<and> sorted_wrt (<) is \<and> set is \<subseteq> {..<length wallPath}
        \<and> length out \<le> length wallPath
        \<and> (wallPath \<noteq> [] \<longrightarrow> hd is = 0 \<and> last is = length wallPath - 1 \<and> last out = last wallPath)
        \<and> successively (scanStop wallPath wallGrid) is)"
proof -
  have wf: "wf_grid wallGrid 1 5" by (simp add: wf_grid_def wallGrid_def)
  have d: "list_all (\<lambda>p. p \<noteq> None) wallPath" by (simp add: wallPath_def)
  from C7_funnel_subsequence[OF wf d] wf d show ?thesis by blast
qed

text \<open>
  C7 as stated fails where the anchor does not see its successor: on \<open>wallGrid\<close> the
  funnel returns \<open>wallPath\<close> unchanged, and the element it appends first, at index 1, is
  not visible from the anchor at index 0.
\<close>

theorem C7_appended_not_visible:
  "\<exists>out. funnelAlgorithm wallPath wallGrid = Some (Inr out) \<and> out ! 1 = wallPath ! 1
         \<and> visibleFrom (out ! 0) (out ! 1) wallGrid = Some (Inr False)"
  by (intro exI[of _ wallPath] conjI funnel_wall refl)

section \<open>Properties: the paths of A*, Dijkstra and the greedy search\<close>

lemma while_loop_rule:
  assumes run: "while_loop body s = Some out"
    and init: "I s"
    and step: "\<And>s s'. I s \<Longrightarrow> body s = Some (Inr (Continue s')) \<Longrightarrow> I s'"
    and brk: "\<And>s v. I s \<Longrightarrow> body s = Some (Inr (Break v)) \<Longrightarrow> Q (Inr v)"
    and err: "\<And>s e. I s \<Longrightarrow> body s = Some (Inl e) \<Longrightarrow> Q (Inl e)"
  shows "Q out"
proof -
  have "body = body \<longrightarrow> I s \<longrightarrow> Q out"
    by (rule while_loop.raw_induct[where P = "\<lambda>b s y. b = body \<longrightarrow> I s \<longrightarrow> Q y", OF _ run])
       (auto split: Option.bind_splits sum.splits iteration.splits intro: step brk err)
  with init show ?thesis by simp
qed

lemma neighborsIn_set:
  "neighborsIn a g rows cols ds = Inr ns \<Longrightarrow>
     set ns = {b. \<exists>d\<in>set ds. b = Pos (row a + fst d) (col a + snd d) \<and> freeCell g rows cols b}"
proof (induction ds arbitrary: ns)
  case Nil
  then show ?case by simp
next
  case (Cons d ds)
  show ?case
  proof (cases "row a + fst d \<ge> 0 \<and> row a + fst d < rows \<and> col a + snd d \<ge> 0 \<and> col a + snd d < cols")
    case False
    with Cons.prems have "neighborsIn a g rows cols ds = Inr ns" by (simp add: Let_def)
    from Cons.IH[OF this] False show ?thesis by (auto simp: freeCell_def inBounds_def)
  next
    case True
    with Cons.prems obtain ob ns' where ob: "isObstacle g (row a + fst d) (col a + snd d) = Some ob"
      and ns': "neighborsIn a g rows cols ds = Inr ns'"
      and ns: "ns = (if ob then ns' else Pos (row a + fst d) (col a + snd d) # ns')"
      by (auto simp: Let_def split: option.splits sum.splits)
    from Cons.IH[OF ns'] ob ns True show ?thesis
      by (auto simp: freeCell_def inBounds_def)
  qed
qed

lemma adjacent4_iff:
  "adjacent4 a b \<longleftrightarrow> (\<exists>d\<in>set directions4. b = Pos (row a + fst d) (col a + snd d))"
proof -
  have "b = Pos r c \<longleftrightarrow> row b = r \<and> col b = c" for r c by (cases b) auto
  then show ?thesis
    unfolding adjacent4_def directions4_def by (simp, arith)
qed

lemma getNeighbors4_iff:
  assumes "getNeighbors a g rows cols False = Inr ns"
  shows "b \<in> set ns \<longleftrightarrow> legalMove g rows cols a b"
  using neighborsIn_set[OF assms[unfolded getNeighbors_def if_False]]
  by (auto simp: legalMove_def adjacent4_iff)

lemma reconstructLoop_walk:
  assumes "reconstructLoop cf cur acc = Some p"
    and "cf start = None"
    and "\<forall>n q. cf n = Some q \<longrightarrow> R q n \<and> (q = start \<or> cf q \<noteq> None)"
    and "cur = start \<or> cf cur \<noteq> None"
    and "acc \<noteq> []" "hd acc = cur" "successively R acc"
  shows "walk R start (last acc) p"
proof -
  have "cf = cf \<longrightarrow> (cur = start \<or> cf cur \<noteq> None) \<longrightarrow> acc \<noteq> [] \<longrightarrow> hd acc = cur \<longrightarrow> successively R acc
        \<longrightarrow> walk R start (last acc) p"
  proof (rule reconstructLoop.raw_induct[where
        P = "\<lambda>c cur acc p. c = cf \<longrightarrow> (cur = start \<or> cf cur \<noteq> None) \<longrightarrow> acc \<noteq> [] \<longrightarrow> hd acc = cur
              \<longrightarrow> successively R acc \<longrightarrow> walk R start (last acc) p", OF _ assms(1)], goal_cases)
    case (1 rl c cur acc p)
    show ?case
    proof (intro impI)
      assume c: "c = cf" and r: "cur = start \<or> cf cur \<noteq> None" and a: "acc \<noteq> []" "hd acc = cur"
        "successively R acc"
      show "walk R start (last acc) p"
      proof (cases "cf cur")
        case None
        with r assms(2) have "cur = start" by auto
        moreover from 1(2) None c have "p = acc" by simp
        ultimately show ?thesis using a by (simp add: walk_def)
      next
        case (Some prev)
        with 1(2) c have rec: "rl cf prev (prev # acc) = Some p" by simp
        from Some assms(3) have R: "R prev cur" and pr: "prev = start \<or> cf prev \<noteq> None" by auto
        from a R have "successively R (prev # acc)" by (cases acc) auto
        with 1(1)[OF rec] pr a show ?thesis by auto
      qed
    qed
  qed
  with assms show ?thesis by simp
qed

lemma reconstructPath_walk:
  assumes "reconstructPath (cameFrom s) cur = Some p" and "treeInv R start s"
    and "cur = start \<or> cameFrom s cur \<noteq> None"
  shows "walk R start cur p"
  using reconstructLoop_walk[OF assms(1)[unfolded reconstructPath_def], of start R] assms(2,3)
  by (auto simp: treeInv_def)

lemma set_enqueue: "set (enqueue q e p) = insert (e, p) (set q)"
  by (simp add: enqueue_def)

lemma treeInv_relaxed:
  assumes "treeInv R start s" and "start \<in> visited s" and "n \<notin> visited s" and "R c n"
    and "c = start \<or> cameFrom s c \<noteq> None"
    and "cameFrom s' = (cameFrom s)(n \<mapsto> c)"
    and "set (openSet s') = insert (n, pr) (set (openSet s))"
    and "visited s' = visited s"
  shows "treeInv R start s'"
  using assms unfolding treeInv_def by (auto split: if_splits)

lemma treeInv_visit:
  assumes "treeInv R start s" and "openSet s = e # rest"
    and "openSet s' = rest" and "cameFrom s' = cameFrom s" and "visited s' = insert (fst e) (visited s)"
  shows "treeInv R start s' \<and> start \<in> visited s' \<and> (fst e = start \<or> cameFrom s' (fst e) \<noteq> None)"
  using assms unfolding treeInv_def by auto

lemma treeInv_skip:
  assumes "treeInv R start s" and "openSet s = e # rest" and "fst e \<in> visited s"
    and "openSet s' = rest" and "cameFrom s' = cameFrom s" and "visited s' = visited s"
  shows "treeInv R start s'"
  using assms unfolding treeInv_def by auto

lemma astar_relax_tree:
  assumes "astar_relax goal c ns s = Inr s'" and "treeInv R start s" and "start \<in> visited s"
    and "c = start \<or> cameFrom s c \<noteq> None" and "\<forall>n\<in>set ns. R c n"
  shows "treeInv R start s'"
  using assms
proof (induction ns arbitrary: s)
  case Nil
  then show ?case by simp
next
  case (Cons n ns)
  show ?case
  proof (cases "n \<in> visited s")
    case True
    with Cons show ?thesis by simp
  next
    case False
    with Cons.prems(1) obtain gc where gc: "gScore s c = Some gc"
      by (auto split: option.splits)
    define s2 where "s2 = s\<lparr>cameFrom := (cameFrom s)(n \<mapsto> c),
                           gScore := (gScore s)(n \<mapsto> gc + 1),
                           fScore := (fScore s)(n \<mapsto> gc + 1 + heuristic n goal),
                           openSet := enqueue (openSet s) n (gc + 1 + heuristic n goal)\<rparr>"
    have t2: "treeInv R start s2"
      using Cons.prems False
      by (intro treeInv_relaxed[of R start s n c s2 "gc + 1 + heuristic n goal"])
         (auto simp: s2_def set_enqueue)
    have v2: "start \<in> visited s2" "c = start \<or> cameFrom s2 c \<noteq> None"
      using Cons.prems by (auto simp: s2_def)
    from Cons.prems(1) False gc have "astar_relax goal c ns s = Inr s' \<or> astar_relax goal c ns s2 = Inr s'"
      by (auto simp: Let_def s2_def split: if_splits)
    then show ?thesis
      using Cons.IH[of s] Cons.IH[of s2] Cons.prems t2 v2 by auto
  qed
qed

lemma astar_walk:
  assumes "astar g start goal rows cols = Some (Inr (Some r))"
  shows "walk (legalMove g rows cols) start goal (path r)"
proof -
  note rule = while_loop_rule[where I = "treeInv (legalMove g rows cols) start"
      and Q = "\<lambda>out. \<forall>r. out = Inr (Some r) \<longrightarrow> walk (legalMove g rows cols) start goal (path r)",
      OF assms[unfolded astar_def]]
  have "\<forall>ra. (Inr (Some r) :: error + pos result option) = Inr (Some ra)
           \<longrightarrow> walk (legalMove g rows cols) start goal (path ra)"
  proof (rule rule, goal_cases)
    case 1
    show ?case by (simp add: treeInv_def astar_init_def enqueue_def)
  next
    case (2 s s')
    from 2(2) obtain e rest ns where os: "openSet s = e # rest"
      and nb: "getNeighbors (fst e) g rows cols False = Inr ns"
      and rl: "astar_relax goal (fst e) ns
                 (s\<lparr>openSet := rest, visited := insert (fst e) (visited s), nExplored := Suc (nExplored s)\<rparr>) = Inr s'"
      by (auto simp: astar_body_def Let_def split: list.splits if_splits sum.splits)
    let ?s1 = "s\<lparr>openSet := rest, visited := insert (fst e) (visited s), nExplored := Suc (nExplored s)\<rparr>"
    from treeInv_visit[OF 2(1) os, of ?s1] have
      "treeInv (legalMove g rows cols) start ?s1" "start \<in> visited ?s1"
      "fst e = start \<or> cameFrom ?s1 (fst e) \<noteq> None" by auto
    from astar_relax_tree[OF rl this] show ?case
      using getNeighbors4_iff[OF nb] by auto
  next
    case (3 s v)
    show ?case
    proof (intro allI impI)
      fix r assume "Inr v = Inr (Some r)"
      with 3(2) obtain e rest p where os: "openSet s = e # rest" and e: "fst e = goal"
        and p: "reconstructPath (cameFrom s) goal = Some p" and r: "path r = p"
        by (auto simp: astar_body_def Let_def stepResult_def split: list.splits if_splits sum.splits)
      from 3(1) os e have "goal = start \<or> cameFrom s goal \<noteq> None" by (auto simp: treeInv_def)
      from reconstructPath_walk[OF p 3(1) this] r show "walk (legalMove g rows cols) start goal (path r)"
        by simp
    qed
  next
    case (4 s e)
    then show ?case by simp
  qed
  then show ?thesis by simp
qed

lemma dijkstra_relax_tree:
  assumes "dijkstra_relax c ns s = Inr s'" and "treeInv R start s" and "start \<in> visited s"
    and "c = start \<or> cameFrom s c \<noteq> None" and "\<forall>n\<in>set ns. R c n"
  shows "treeInv R start s'"
  using assms
proof (induction ns arbitrary: s)
  case Nil
  then show ?case by simp
next
  case (Cons n ns)
  show ?case
  proof (cases "n \<in> visited s")
    case True
    with Cons show ?thesis by simp
  next
    case False
    with Cons.prems(1) obtain dc where dc: "distanceTo s c = Some dc"
      by (auto split: option.splits)
    define s2 where "s2 = s\<lparr>distanceTo := (distanceTo s)(n \<mapsto> dc + 1),
                           cameFrom := (cameFrom s)(n \<mapsto> c),
                           openSet := enqueue (openSet s) n (dc + 1)\<rparr>"
    have t2: "treeInv R start s2"
      using Cons.prems False
      by (intro treeInv_relaxed[of R start s n c s2 "dc + 1"])
         (auto simp: s2_def set_enqueue)
    have v2: "start \<in> visited s2" "c = start \<or> cameFrom s2 c \<noteq> None"
      using Cons.prems by (auto simp: s2_def)
    from Cons.prems(1) False dc have "dijkstra_relax c ns s = Inr s' \<or> dijkstra_relax c ns s2 = Inr s'"
      by (auto simp: Let_def s2_def split: if_splits)
    then show ?thesis
      using Cons.IH[of s] Cons.IH[of s2] Cons.prems t2 v2 by auto
  qed
qed

lemma dijkstra_walk:
  assumes "dijkstra g start goal rows cols = Some (Inr (Some r))"
  shows "walk (legalMove g rows cols) start goal (path r)"
proof -
  note rule = while_loop_rule[where I = "treeInv (legalMove g rows cols) start"
      and Q = "\<lambda>out. \<forall>r. out = Inr (Some r) \<longrightarrow> walk (legalMove g rows cols) start goal (path r)",
      OF assms[unfolded dijkstra_def]]
  have "\<forall>ra. (Inr (Some r) :: error + pos result option) = Inr (Some ra)
           \<longrightarrow> walk (legalMove g rows cols) start goal (path ra)"
  proof (rule rule, goal_cases)
    case 1
    show ?case by (simp add: treeInv_def dijkstra_init_def enqueue_def)
  next
    case (2 s s')
    from 2(2) obtain e rest where os: "openSet s = e # rest"
      by (auto simp: dijkstra_body_def split: list.splits)
    show ?case
    proof (cases "fst e \<in> visited s")
      case True
      with 2(2) os have "s' = s\<lparr>openSet := rest\<rparr>" by (simp add: dijkstra_body_def)
      with treeInv_skip[OF 2(1) os True, of s'] show ?thesis by simp
    next
      case False
      with 2(2) os obtain ns where
        nb: "getNeighbors (fst e) g rows cols False = Inr ns"
        and rl: "dijkstra_relax (fst e) ns
               (s\<lparr>openSet := rest, visited := insert (fst e) (visited s), nExplored := Suc (nExplored s)\<rparr>) = Inr s'"
        by (auto simp: dijkstra_body_def Let_def split: if_splits sum.splits)
      let ?s1 = "s\<lparr>openSet := rest, visited := insert (fst e) (visited s), nExplored := Suc (nExplored s)\<rparr>"
      from treeInv_visit[OF 2(1) os, of ?s1] have
        "treeInv (legalMove g rows cols) start ?s1" "start \<in> visited ?s1"
        "fst e = start \<or> cameFrom ?s1 (fst e) \<noteq> None" by auto
      from dijkstra_relax_tree[OF rl this] show ?thesis
        using getNeighbors4_iff[OF nb] by auto
    qed
  next
    case (3 s v)
    show ?case
    proof (intro allI impI)
      fix r assume "Inr v = Inr (Some r)"
      with 3(2) obtain e rest p where os: "openSet s = e # rest" and e: "fst e = goal"
        and p: "reconstructPath (cameFrom s) goal = Some p" and r: "path r = p"
        by (auto simp: dijkstra_body_def Let_def stepResult_def split: list.splits if_splits sum.splits)
      from 3(1) os e have "goal = start \<or> cameFrom s goal \<noteq> None" by (auto simp: treeInv_def)
      from reconstructPath_walk[OF p 3(1) this] r show "walk (legalMove g rows cols) start goal (path r)"
        by simp
    qed
  next
    case (4 s e)
    then show ?case by simp
  qed
  then show ?thesis by simp
qed

lemma greedy_relax_tree:
  assumes "treeInv R start s" and "start \<in> visited s"
    and "c = start \<or> cameFrom s c \<noteq> None" and "\<forall>n\<in>set ns. R c n"
  shows "treeInv R start (greedy_relax goal c ns s)"
  using assms
proof (induction ns arbitrary: s)
  case Nil
  then show ?case by simp
next
  case (Cons n ns)
  show ?case
  proof (cases "n \<notin> visited s \<and> cameFrom s n = None")
    case False
    with Cons show ?thesis by auto
  next
    case True
    define s2 where "s2 = s\<lparr>cameFrom := (cameFrom s)(n \<mapsto> c),
                           openSet := enqueue (openSet s) n (heuristic n goal)\<rparr>"
    have t2: "treeInv R start s2"
      using Cons.prems True
      by (intro treeInv_relaxed[of R start s n c s2 "heuristic n goal"])
         (auto simp: s2_def set_enqueue)
    have v2: "start \<in> visited s2" "c = start \<or> cameFrom s2 c \<noteq> None"
      using Cons.prems by (auto simp: s2_def)
    from True have "greedy_relax goal c (n # ns) s = greedy_relax goal c ns s2"
      by (simp add: s2_def)
    then show ?thesis
      using Cons.IH[of s2] Cons.prems t2 v2 by auto
  qed
qed

lemma greedy_walk:
  assumes "greedyBestFirst g start goal rows cols = Some (Inr (Some r))"
  shows "walk (legalMove g rows cols) start goal (path r)"
proof -
  note rule = while_loop_rule[where I = "treeInv (legalMove g rows cols) start"
      and Q = "\<lambda>out. \<forall>r. out = Inr (Some r) \<longrightarrow> walk (legalMove g rows cols) start goal (path r)",
      OF assms[unfolded greedyBestFirst_def]]
  have "\<forall>ra. (Inr (Some r) :: error + pos result option) = Inr (Some ra)
           \<longrightarrow> walk (legalMove g rows cols) start goal (path ra)"
  proof (rule rule, goal_cases)
    case 1
    show ?case by (simp add: treeInv_def greedy_init_def enqueue_def)
  next
    case (2 s s')
    from 2(2) obtain e rest where os: "openSet s = e # rest"
      by (auto simp: greedy_body_def split: list.splits)
    show ?case
    proof (cases "fst e \<in> visited s")
      case True
      with 2(2) os have "s' = s\<lparr>openSet := rest\<rparr>" by (simp add: greedy_body_def)
      with treeInv_skip[OF 2(1) os True, of s'] show ?thesis by simp
    next
      case False
      let ?s1 = "s\<lparr>openSet := rest, visited := insert (fst e) (visited s), nExplored := Suc (nExplored s)\<rparr>"
      from False 2(2) os obtain ns where
        nb: "getNeighbors (fst e) g rows cols False = Inr ns"
        and rl: "s' = greedy_relax goal (fst e) ns ?s1"
        by (auto simp: greedy_body_def Let_def split: if_splits sum.splits)
      from treeInv_visit[OF 2(1) os, of ?s1] have
        "treeInv (legalMove g rows cols) start ?s1" "start \<in> visited ?s1"
        "fst e = start \<or> cameFrom ?s1 (fst e) \<noteq> None" by auto
      from greedy_relax_tree[OF this, of ns goal] show ?thesis
        using getNeighbors4_iff[OF nb] rl by auto
    qed
  next
    case (3 s v)
    show ?case
    proof (intro allI impI)
      fix r assume "Inr v = Inr (Some r)"
      with 3(2) obtain e rest p where os: "openSet s = e # rest" and e: "fst e = goal"
        and p: "reconstructPath (cameFrom s) goal = Some p" and r: "path r = p"
        by (auto simp: greedy_body_def Let_def stepResult_def split: list.splits if_splits sum.splits)
      from 3(1) os e have "goal = start \<or> cameFrom s goal \<noteq> None" by (auto simp: treeInv_def)
      from reconstructPath_walk[OF p 3(1) this] r show "walk (legalMove g rows cols) start goal (path r)"
        by simp
    qed
  next
    case (4 s e)
    then show ?case by simp
  qed
  then show ?thesis by simp
qed

text \<open>The shape of the result objects.\<close>

lemma step_result_shape:
  assumes "while_loop body s = Some (Inr (Some r))"
    and "\<And>s v. body s = Some (Inr (Break (Some v))) \<Longrightarrow> \<exists>p n. v = stepResult p n"
  shows "\<exists>p n. r = stepResult p n"
proof -
  have "\<forall>ra. (Inr (Some r) :: error + pos result option) = Inr (Some ra) \<longrightarrow> (\<exists>p n. ra = stepResult p n)"
    by (rule while_loop_rule[where I = "\<lambda>_. True"
          and Q = "\<lambda>out. \<forall>r. out = Inr (Some r) \<longrightarrow> (\<exists>p n. r = stepResult p n)", OF assms(1)])
       (auto dest: assms(2))
  then show ?thesis by simp
qed

lemma distance_result_shape:
  assumes "while_loop body s = Some (Inr (Some r))"
    and "\<And>s v. body s = Some (Inr (Break (Some v))) \<Longrightarrow> \<exists>p n. v = distanceResult p n"
  shows "\<exists>p n. r = distanceResult p n"
proof -
  have "\<forall>ra. (Inr (Some r) :: error + pos result option) = Inr (Some ra) \<longrightarrow> (\<exists>p n. ra = distanceResult p n)"
    by (rule while_loop_rule[where I = "\<lambda>_. True"
          and Q = "\<lambda>out. \<forall>r. out = Inr (Some r) \<longrightarrow> (\<exists>p n. r = distanceResult p n)", OF assms(1)])
       (auto dest: assms(2))
  then show ?thesis by simp
qed

lemma astar_shape:
  "astar g start goal rows cols = Some (Inr (Some r)) \<Longrightarrow> \<exists>p n. r = stepResult p n"
  unfolding astar_def
  by (erule step_result_shape)
     (auto simp: astar_body_def Let_def split: list.splits if_splits sum.splits)

lemma dijkstra_shape:
  "dijkstra g start goal rows cols = Some (Inr (Some r)) \<Longrightarrow> \<exists>p n. r = stepResult p n"
  unfolding dijkstra_def
  by (erule step_result_shape)
     (auto simp: dijkstra_body_def Let_def split: list.splits if_splits sum.splits)

lemma greedy_shape:
  "greedyBestFirst g start goal rows cols = Some (Inr (Some r)) \<Longrightarrow> \<exists>p n. r = stepResult p n"
  unfolding greedyBestFirst_def
  by (erule step_result_shape)
     (auto simp: greedy_body_def Let_def split: list.splits if_splits sum.splits)

lemma jps_shape:
  "jps g start goal rows cols = Some (Inr (Some r)) \<Longrightarrow> \<exists>p n. r = distanceResult p n"
  unfolding jps_def
  by (erule distance_result_shape)
     (auto simp: jps_body_def Let_def split: list.splits if_splits sum.splits Option.bind_splits)

lemma map_sum_Continue: "map_sum id Continue z \<noteq> Inr (Break v)"
  by (cases z) auto

lemma theta_shape:
  "thetaStar g start goal rows cols = Some (Inr (Some r)) \<Longrightarrow> \<exists>p n. r = distanceResult p n"
  unfolding thetaStar_def
  by (erule distance_result_shape)
     (auto simp: theta_body_def Let_def map_sum_Continue split: list.splits if_splits sum.splits)

lemma sumDistances_acc: "sumDistances d p = d + sumDistances 0 p"
proof (induction p arbitrary: d rule: induct_list012)
  case (3 a b ps)
  have "sumDistances d (a # b # ps) = d + distance a b + sumDistances 0 (b # ps)"
    using 3(2)[of "d + distance a b"] by simp
  moreover have "sumDistances 0 (a # b # ps) = distance a b + sumDistances 0 (b # ps)"
    using 3(2)[of "0 + distance a b"] by simp
  ultimately show ?case by simp
qed simp_all

lemma sq_abs1: "\<bar>x :: int\<bar> = 1 \<Longrightarrow> (real_of_int x)\<^sup>2 = 1"
proof -
  assume "\<bar>x\<bar> = 1"
  then have "x = 1 \<or> x = -1" by arith
  then show ?thesis by auto
qed

lemma distance_adjacent4: "adjacent4 a b \<Longrightarrow> distance a b = 1"
proof -
  assume "adjacent4 a b"
  then have "(row a - row b = 0 \<and> \<bar>col a - col b\<bar> = 1) \<or> (\<bar>row a - row b\<bar> = 1 \<and> col a - col b = 0)"
    unfolding adjacent4_def by arith
  then show ?thesis
    unfolding distance_def by (auto simp: sq_abs1 simp del: of_int_diff)
qed

lemma walk_length:
  assumes "successively (\<lambda>a b. adjacent4 a b) p" and "p \<noteq> []"
  shows "sumDistances 0 p = real (length p) - 1"
  using assms
proof (induction p rule: induct_list012)
  case (3 a b ps)
  then have "sumDistances 0 (b # ps) = real (length (b # ps)) - 1" by simp
  moreover from 3 have "distance a b = 1" by (simp add: distance_adjacent4)
  ultimately show ?case using sumDistances_acc[of 1 "b # ps"] by simp
qed simp_all


lemma legalPath_length:
  assumes "walk (legalMove g rows cols) a b p"
  shows "sumDistances 0 p = real (length p) - 1"
proof -
  have "successively (legalMove g rows cols) p \<Longrightarrow> successively (\<lambda>x y. adjacent4 x y) p"
    by (induction p rule: induct_list012) (auto simp: legalMove_def)
  with assms show ?thesis by (intro walk_length) (auto simp: walk_def)
qed

section \<open>Properties: the paths of JPS and Theta*\<close>

lemma map_sum_Continue_iff: "map_sum id Continue z = Inr (Continue s') \<longleftrightarrow> z = Inr s'"
  by (cases z) auto

lemma theta_update_cases:
  assumes "theta_update goal src n s = Inr s'"
  obtains gs gn where "gScore s src = Some gs" "gScore s n = Some gn"
      "\<not> gs + distance src n < gn" "s' = s"
  | gs where "gScore s src = Some gs" "\<forall>gn. gScore s n = Some gn \<longrightarrow> gs + distance src n < gn"
      "cameFrom s' = (cameFrom s)(n \<mapsto> src)"
      "gScore s' = (gScore s)(n \<mapsto> gs + distance src n)"
      "openSet s' = enqueue (openSet s) n (gs + distance src n + real_of_int (heuristic n goal))"
      "visited s' = visited s"
proof (cases "gScore s src")
  case None
  with assms show ?thesis by (simp add: theta_update_def)
next
  case (Some gs)
  let ?t = "gs + distance src n"
  show ?thesis
  proof (cases "case gScore s n of None \<Rightarrow> True | Some gn \<Rightarrow> ?t < gn")
    case True
    then have better: "\<forall>gn. gScore s n = Some gn \<longrightarrow> ?t < gn" by (simp split: option.splits)
    from assms Some True
    have eq: "s' = s\<lparr>cameFrom := (cameFrom s)(n \<mapsto> src),
                      gScore := (gScore s)(n \<mapsto> ?t),
                      fScore := (fScore s)(n \<mapsto> ?t + real_of_int (heuristic n goal)),
                      openSet := enqueue (openSet s) n (?t + real_of_int (heuristic n goal))\<rparr>"
      unfolding theta_update_def by (simp add: Let_def)
    show ?thesis
      by (rule that(2)[OF Some better]) (simp_all add: eq)
  next
    case False
    then obtain gn where gn: "gScore s n = Some gn" and nb: "\<not> ?t < gn"
      by (simp split: option.splits)
    from assms Some False have eq: "s' = s"
      unfolding theta_update_def by (simp add: Let_def)
    show ?thesis by (rule that(1)[OF Some gn nb eq])
  qed
qed















section \<open>Properties: the iterations of RRT\<close>

lemma nearestTo_mem: "nearestTo fl p nodes nearest minDist \<in> insert nearest (set nodes)"
  by (induction nodes arbitrary: nearest minDist) (auto simp: Let_def)

lemma nearestNode_mem:
  assumes "nearestNode fl tr p = Inr n"
  shows "n \<in> set tr"
proof (cases tr)
  case Nil
  with assms show ?thesis by (simp add: nearestNode_def)
next
  case (Cons a as)
  with assms have "n = nearestTo fl p (a # as) a (fl (distance (position a) p))"
    by (simp add: nearestNode_def)
  with nearestTo_mem[of fl p "a # as" a "fl (distance (position a) p)"] Cons
  show ?thesis by simp
qed

lemma extendToward_inBounds:
  "extendToward fl a b stepSize rows cols = Some newPos \<Longrightarrow> inBounds rows cols newPos"
  by (auto simp: extendToward_def Let_def inBounds_def split: if_splits)

text \<open>An iteration of \<^verbatim>\<open>rrt\<close> that leads to a result: it skips, adds a node, or returns.\<close>

lemma rrt_loop_cases:
  assumes "rrt_loop fl rnd g goal rows cols (Suc i) tr nodes k = Inr (Some r)"
  obtains (skip) k' where "rrt_loop fl rnd g goal rows cols i tr nodes k' = Inr (Some r)"
  | (add) k' nearest newPos where "nearest \<in> set tr" "inBounds rows cols newPos"
      "pathCrossesObstacle fl (position nearest) newPos g = Inr False"
      "rrt_loop fl rnd g goal rows cols i (tr @ [Node newPos (Some nearest)]) (Suc nodes) k'
         = Inr (Some r)"
  | (reach) nearest newPos where "nearest \<in> set tr" "inBounds rows cols newPos"
      "pathCrossesObstacle fl (position nearest) newPos g = Inr False"
      "fl (distance newPos goal) < 3 / 2"
      "r = rrtResult (smoothRRTPath fl
                        (reconstructRRTPath (Node goal (Some (Node newPos (Some nearest))))))
             (Suc nodes) (tr @ [Node newPos (Some nearest)])"
proof -
  obtain randomPt k' where rp: "randomPoint fl rnd k goal rows cols = (randomPt, k')"
    by (cases "randomPoint fl rnd k goal rows cols")
  from assms rp obtain nearest where n: "nearestNode fl tr randomPt = Inr nearest"
    by (cases "nearestNode fl tr randomPt") simp_all
  note mem = nearestNode_mem[OF n]
  show ?thesis
  proof (cases "extendToward fl (position nearest) randomPt 2 rows cols")
    case None
    with assms rp n have "rrt_loop fl rnd g goal rows cols i tr nodes k' = Inr (Some r)" by simp
    then show ?thesis by (rule skip)
  next
    case (Some newPos)
    note ib = extendToward_inBounds[OF Some]
    from assms rp n Some obtain ob where ob: "readObstacle g (row newPos) (col newPos) = Inr ob"
      by (cases "readObstacle g (row newPos) (col newPos)") simp_all
    show ?thesis
    proof (cases ob)
      case True
      with assms rp n Some ob have "rrt_loop fl rnd g goal rows cols i tr nodes k' = Inr (Some r)"
        by simp
      then show ?thesis by (rule skip)
    next
      case False
      with assms rp n Some ob obtain crosses where
        cr: "pathCrossesObstacle fl (position nearest) newPos g = Inr crosses"
        by (cases "pathCrossesObstacle fl (position nearest) newPos g") simp_all
      show ?thesis
      proof (cases crosses)
        case True
        with assms rp n Some ob \<open>\<not> ob\<close> cr
        have "rrt_loop fl rnd g goal rows cols i tr nodes k' = Inr (Some r)" by simp
        then show ?thesis by (rule skip)
      next
        case nc: False
        show ?thesis
        proof (cases "fl (distance newPos goal) < 3 / 2")
          case True
          with assms rp n Some ob \<open>\<not> ob\<close> cr nc
          have "r = rrtResult (smoothRRTPath fl
                        (reconstructRRTPath (Node goal (Some (Node newPos (Some nearest))))))
                      (Suc nodes) (tr @ [Node newPos (Some nearest)])"
            by (simp add: Let_def)
          with mem ib cr nc True show ?thesis by (intro reach) simp_all
        next
          case False
          with assms rp n Some ob \<open>\<not> ob\<close> cr nc
          have "rrt_loop fl rnd g goal rows cols i (tr @ [Node newPos (Some nearest)]) (Suc nodes) k'
                  = Inr (Some r)"
            by (simp add: Let_def)
          with mem ib cr nc show ?thesis by (intro add) simp_all
        qed
      qed
    qed
  qed
qed

text \<open>An iteration of \<^verbatim>\<open>navmeshRRT\<close> that leads to a result.\<close>

lemma navmeshRRT_loop_cases:
  assumes "navmeshRRT_loop fl rnd ws g goal (Suc i) tr explored nodes k = Inr (Some (r, t))"
  obtains (skip) k' where
      "navmeshRRT_loop fl rnd ws g goal i tr explored nodes k' = Inr (Some (r, t))"
  | (add) k' nearest newPos where "nearest \<in> set tr"
      "extendOnMesh fl (position nearest) (fst (projr (randomWaypoint fl rnd k ws goal))) g
         = Some newPos"
      "readObstacle g (row newPos) (col newPos) = Inr False"
      "pathCrossesObstacleNavMesh fl (position nearest) newPos g = Inr False"
      "navmeshRRT_loop fl rnd ws g goal i (tr @ [Node newPos (Some nearest)])
         (explored @ [newPos]) (Suc nodes) k' = Inr (Some (r, t))"
  | (reach) nearest newPos smoothPath where "nearest \<in> set tr"
      "extendOnMesh fl (position nearest) (fst (projr (randomWaypoint fl rnd k ws goal))) g
         = Some newPos"
      "readObstacle g (row newPos) (col newPos) = Inr False"
      "pathCrossesObstacleNavMesh fl (position nearest) newPos g = Inr False"
      "fl (distance newPos goal) < 3"
      "smoothNavMeshPath fl (map Some (reconstructRRTPath
         (Node goal (Some (Node newPos (Some nearest)))))) = Inr smoothPath"
      "r = navRRTResult smoothPath (explored @ [newPos]) (Suc nodes)"
      "t = tr @ [Node newPos (Some nearest)]"
proof -
  from assms obtain randomPt k' where rp: "randomWaypoint fl rnd k ws goal = Inr (randomPt, k')"
    by (cases "randomWaypoint fl rnd k ws goal") auto
  from assms rp obtain nearest where n: "nearestNode fl tr randomPt = Inr nearest"
    by (cases "nearestNode fl tr randomPt") simp_all
  note mem = nearestNode_mem[OF n]
  let ?skip = "navmeshRRT_loop fl rnd ws g goal i tr explored nodes k' = Inr (Some (r, t))"
  show ?thesis
  proof (cases "extendOnMesh fl (position nearest) randomPt g")
    case None
    with assms rp n have ?skip by simp
    then show ?thesis by (rule skip)
  next
    case (Some newPos)
    then have ext: "extendOnMesh fl (position nearest)
                      (fst (projr (randomWaypoint fl rnd k ws goal))) g = Some newPos"
      by (simp add: rp)
    from assms rp n Some obtain ob where ob: "readObstacle g (row newPos) (col newPos) = Inr ob"
      by (cases "readObstacle g (row newPos) (col newPos)") simp_all
    show ?thesis
    proof (cases ob)
      case True
      with assms rp n Some ob have ?skip by simp
      then show ?thesis by (rule skip)
    next
      case False
      with assms rp n Some ob obtain crosses where
        cr: "pathCrossesObstacleNavMesh fl (position nearest) newPos g = Inr crosses"
        by (cases "pathCrossesObstacleNavMesh fl (position nearest) newPos g") simp_all
      show ?thesis
      proof (cases crosses)
        case True
        with assms rp n Some ob \<open>\<not> ob\<close> cr have ?skip by simp
        then show ?thesis by (rule skip)
      next
        case nc: False
        show ?thesis
        proof (cases "fl (distance newPos goal) < 3")
          case True
          with assms rp n Some ob \<open>\<not> ob\<close> cr nc obtain smoothPath where
            "smoothNavMeshPath fl (map Some (reconstructRRTPath
               (Node goal (Some (Node newPos (Some nearest)))))) = Inr smoothPath"
            "r = navRRTResult smoothPath (explored @ [newPos]) (Suc nodes)"
            "t = tr @ [Node newPos (Some nearest)]"
            by (cases "smoothNavMeshPath fl (map Some (reconstructRRTPath
               (Node goal (Some (Node newPos (Some nearest))))))")
               (simp_all add: Let_def)
          with mem ext ob \<open>\<not> ob\<close> cr nc True show ?thesis by (intro reach) simp_all
        next
          case False
          with assms rp n Some ob \<open>\<not> ob\<close> cr nc
          have "navmeshRRT_loop fl rnd ws g goal i (tr @ [Node newPos (Some nearest)])
                  (explored @ [newPos]) (Suc nodes) k' = Inr (Some (r, t))"
            by (simp add: Let_def)
          with mem ext ob \<open>\<not> ob\<close> cr nc show ?thesis by (intro add) simp_all
        qed
      qed
    qed
  qed
qed

section \<open>Properties: the searches on small grids\<close>

lemma sqrt2_bounds: "sqrt 2 < 2" "\<not> 2 \<le> sqrt 2" "\<not> 2 < sqrt 2"
  using real_sqrt_less_iff[of 2 4] by simp_all

lemma round_sqrt2: "\<lfloor>sqrt 2 * 10 + 1 / 2\<rfloor> = 14"
proof -
  have a: "27/20 < sqrt 2" by (rule real_less_rsqrt) (simp add: power2_eq_square)
  have b: "sqrt 2 < 29/20" by (rule real_less_lsqrt) (simp_all add: power2_eq_square)
  from a b show ?thesis by (simp add: floor_eq_iff)
qed

lemma sqrt2_not_7_5: "sqrt 2 \<noteq> 7 / 5"
proof
  assume a: "sqrt 2 = 7 / 5"
  have "(sqrt 2)\<^sup>2 = 2" by simp
  then have "(7 / 5 :: real)\<^sup>2 = 2" unfolding a .
  then show False by (simp add: power2_eq_square)
qed

lemma astar_empty2:
  "astar (emptyGrid 2 2) (Pos 0 0) (Pos 1 1) 2 2 = Some (Inr (Some (stepResult [Pos 0 0, Pos 1 0, Pos 1 1] 3)))"
  by code_simp

lemma dijkstra_empty2:
  "dijkstra (emptyGrid 2 2) (Pos 0 0) (Pos 1 1) 2 2 = Some (Inr (Some (stepResult [Pos 0 0, Pos 1 0, Pos 1 1] 4)))"
  by code_simp

lemma greedy_empty2:
  "greedyBestFirst (emptyGrid 2 2) (Pos 0 0) (Pos 1 1) 2 2 = Some (Inr (Some (stepResult [Pos 0 0, Pos 1 0, Pos 1 1] 3)))"
  by code_simp

lemma successors_empty2:
  "identifySuccessors (Pos 0 0) (emptyGrid 2 2) 2 2 (Pos 1 1) = Some (Inr [Pos 1 1])"
  by code_simp

lemma jps_empty2:
  "jps (emptyGrid 2 2) (Pos 0 0) (Pos 1 1) 2 2 = Some (Inr (Some (distanceResult [Pos 0 0, Pos 1 1] 2)))"
  by (simp add: jps_def real_init_def while_loop.simps jps_body_def heuristic_def enqueue_def
      successors_empty2 Let_def reconstructPath_def reconstructLoop.simps distance_def
      distanceResult_def)

lemma neighbors_empty2:
  "getNeighbors (Pos 0 0) (emptyGrid 2 2) 2 2 True = Inr [Pos 1 0, Pos 0 1, Pos 1 1]"
  by code_simp

lemma theta_empty2:
  "thetaStar (emptyGrid 2 2) (Pos 0 0) (Pos 1 1) 2 2 = Some (Inr (Some (distanceResult [Pos 0 0, Pos 1 1] 2)))"
  by (simp add: thetaStar_def real_init_def while_loop.simps theta_body_def heuristic_def
      enqueue_def neighbors_empty2 Let_def theta_neighbor_def theta_update_def
      reconstructPath_def reconstructLoop.simps distance_def sqrt2_bounds distanceResult_def)

lemma diagonal_cost:
  "pathCost (metrics (distanceResult [Pos 0 0, Pos 1 1] 2)) = 7 / 5"
  "sumDistances 0 [Pos 0 0, Pos 1 1] = sqrt 2"
  by (simp_all add: distanceResult_def calculatePathDistance_def mathRound_def distance_def round_sqrt2)

lemma upto_0_1: "[0..1] = [0, 1]"
  by code_simp

lemma sqrt2_ratio: "min (2 / sqrt 2) 1 = 1"
proof -
  have "sqrt 2 \<le> 2" using sqrt2_bounds(1) by simp
  then have "1 \<le> 2 / sqrt 2" by (simp add: le_divide_eq)
  then show ?thesis by simp
qed

text \<open>
  A run of \<^verbatim>\<open>rrt\<close> in which \<^verbatim>\<open>Math.random\<close> returns 0 throughout, so that every
  sample is the goal, in exact arithmetic: one iteration, from (0,0) to (1,1).
\<close>

lemma rrt_empty2:
  "rrt (\<lambda>x. x) (\<lambda>k. 0) (emptyGrid 2 2) (Pos 0 0) (Pos 1 1) 2 2 (Suc 0)
     = Inr (Some (rrtResult [Pos 0 0, Pos 1 1] 1
                    [Node (Pos 0 0) None, Node (Pos 1 1) (Some (Node (Pos 0 0) None))]))"
  by (simp add: rrt_def randomPoint_def nearestNode_def extendToward_def distance_def
      sqrt2_ratio sqrt2_bounds lerp_def mathRound_def readObstacle_def isObstacle_def emptyGrid_def
      pathCrossesObstacle_def upto_0_1 Let_def smoothRRTPath_def reconstructRRTPath_def
      legCells_def pushCell_def)

section \<open>Properties: path legality\<close>




section \<open>Properties: the reported cost\<close>

text \<open>
  C6, as the code has it. A*, Dijkstra and the greedy search report the step count of
  the path, which is its Euclidean length, every step having length 1. JPS and Theta*
  report the Euclidean length of the path rounded to one decimal.
\<close>

theorem C6_reported_cost:
  "(astar g start goal rows cols = Some (Inr (Some ra))
      \<longrightarrow> pathCost (metrics ra) = real (length (path ra)) - 1
          \<and> pathCost (metrics ra) = sumDistances 0 (path ra))
   \<and> (dijkstra g start goal rows cols = Some (Inr (Some rd))
      \<longrightarrow> pathCost (metrics rd) = real (length (path rd)) - 1
          \<and> pathCost (metrics rd) = sumDistances 0 (path rd))
   \<and> (greedyBestFirst g start goal rows cols = Some (Inr (Some rg))
      \<longrightarrow> pathCost (metrics rg) = real (length (path rg)) - 1
          \<and> pathCost (metrics rg) = sumDistances 0 (path rg))
   \<and> (jps g start goal rows cols = Some (Inr (Some rj))
      \<longrightarrow> pathCost (metrics rj) = roundedLength (path rj))
   \<and> (thetaStar g start goal rows cols = Some (Inr (Some rt))
      \<longrightarrow> pathCost (metrics rt) = roundedLength (path rt))"
proof (intro conjI impI)
  assume a: "astar g start goal rows cols = Some (Inr (Some ra))"
  from astar_shape[OF a] show c: "pathCost (metrics ra) = real (length (path ra)) - 1"
    by (auto simp: stepResult_def)
  from legalPath_length[OF astar_walk[OF a]] c
  show "pathCost (metrics ra) = sumDistances 0 (path ra)" by simp
next
  assume a: "dijkstra g start goal rows cols = Some (Inr (Some rd))"
  from dijkstra_shape[OF a] show c: "pathCost (metrics rd) = real (length (path rd)) - 1"
    by (auto simp: stepResult_def)
  from legalPath_length[OF dijkstra_walk[OF a]] c
  show "pathCost (metrics rd) = sumDistances 0 (path rd)" by simp
next
  assume a: "greedyBestFirst g start goal rows cols = Some (Inr (Some rg))"
  from greedy_shape[OF a] show c: "pathCost (metrics rg) = real (length (path rg)) - 1"
    by (auto simp: stepResult_def)
  from legalPath_length[OF greedy_walk[OF a]] c
  show "pathCost (metrics rg) = sumDistances 0 (path rg)" by simp
next
  assume "jps g start goal rows cols = Some (Inr (Some rj))"
  from jps_shape[OF this] show "pathCost (metrics rj) = roundedLength (path rj)"
    by (auto simp: distanceResult_def calculatePathDistance_def roundedLength_def)
next
  assume "thetaStar g start goal rows cols = Some (Inr (Some rt))"
  from theta_shape[OF this] show "pathCost (metrics rt) = roundedLength (path rt)"
    by (auto simp: distanceResult_def calculatePathDistance_def roundedLength_def)
qed

theorem C6_reported_cost_witness:
  "astar (emptyGrid 2 2) (Pos 0 0) (Pos 1 1) 2 2
       = Some (Inr (Some (stepResult [Pos 0 0, Pos 1 0, Pos 1 1] 3)))
   \<and> dijkstra (emptyGrid 2 2) (Pos 0 0) (Pos 1 1) 2 2
       = Some (Inr (Some (stepResult [Pos 0 0, Pos 1 0, Pos 1 1] 4)))
   \<and> greedyBestFirst (emptyGrid 2 2) (Pos 0 0) (Pos 1 1) 2 2
       = Some (Inr (Some (stepResult [Pos 0 0, Pos 1 0, Pos 1 1] 3)))
   \<and> jps (emptyGrid 2 2) (Pos 0 0) (Pos 1 1) 2 2
       = Some (Inr (Some (distanceResult [Pos 0 0, Pos 1 1] 2)))
   \<and> thetaStar (emptyGrid 2 2) (Pos 0 0) (Pos 1 1) 2 2
       = Some (Inr (Some (distanceResult [Pos 0 0, Pos 1 1] 2)))
   \<and> pathCost (metrics (stepResult [Pos 0 0, Pos 1 0, Pos 1 1] 3)) = 2
   \<and> sumDistances 0 [Pos 0 0, Pos 1 0, Pos 1 1] = 2
   \<and> pathCost (metrics (distanceResult [Pos 0 0, Pos 1 1] 2)) = roundedLength [Pos 0 0, Pos 1 1]
   \<and> roundedLength [Pos 0 0, Pos 1 1] = 7 / 5"
proof -
  from C6_reported_cost[of "emptyGrid 2 2" "Pos 0 0" "Pos 1 1" 2 2
      "stepResult [Pos 0 0, Pos 1 0, Pos 1 1] 3" "stepResult [Pos 0 0, Pos 1 0, Pos 1 1] 4"
      "stepResult [Pos 0 0, Pos 1 0, Pos 1 1] 3" "distanceResult [Pos 0 0, Pos 1 1] 2"
      "distanceResult [Pos 0 0, Pos 1 1] 2"]
    astar_empty2 dijkstra_empty2 greedy_empty2 jps_empty2 theta_empty2 diagonal_cost
  show ?thesis by (simp add: stepResult_def distanceResult_def)
qed

text \<open>
  C6 as stated fails for Theta* (and JPS): on the empty 2 by 2 grid the path from (0,0)
  to (1,1) has the Euclidean length \<open>sqrt 2\<close>, and the reported cost is 1.4.
\<close>

theorem C6_theta_cost_is_rounded:
  "\<exists>r. thetaStar (emptyGrid 2 2) (Pos 0 0) (Pos 1 1) 2 2 = Some (Inr (Some r))
       \<and> path r = [Pos 0 0, Pos 1 1]
       \<and> sumDistances 0 (path r) = sqrt 2
       \<and> pathCost (metrics r) = 7 / 5
       \<and> pathCost (metrics r) \<noteq> sumDistances 0 (path r)"
proof (intro exI[of _ "distanceResult [Pos 0 0, Pos 1 1] 2"] conjI)
  show "thetaStar (emptyGrid 2 2) (Pos 0 0) (Pos 1 1) 2 2
          = Some (Inr (Some (distanceResult [Pos 0 0, Pos 1 1] 2)))"
    by (rule theta_empty2)
  show p: "path (distanceResult [Pos 0 0, Pos 1 1] 2) = [Pos 0 0, Pos 1 1]"
    by (simp add: distanceResult_def)
  show "sumDistances 0 (path (distanceResult [Pos 0 0, Pos 1 1] 2)) = sqrt 2"
    unfolding p by (rule diagonal_cost)
  show "pathCost (metrics (distanceResult [Pos 0 0, Pos 1 1] 2)) = 7 / 5"
    by (rule diagonal_cost)
  show "pathCost (metrics (distanceResult [Pos 0 0, Pos 1 1] 2))
          \<noteq> sumDistances 0 (path (distanceResult [Pos 0 0, Pos 1 1] 2))"
    unfolding p diagonal_cost using sqrt2_not_7_5 by simp
qed

section \<open>Properties: the exploration trace\<close>

lemma navAStar_relax_explored:
  "navAStar_relax ws gw c ns s = Inr s' \<Longrightarrow> nExplored s' = nExplored s"
proof (induction ns arbitrary: s)
  case (Cons n ns)
  from Cons.prems show ?case
    by (auto simp: Let_def split: if_splits option.splits sum.splits dest!: Cons.IH)
qed simp

lemma navAStar_relax_visited:
  "navAStar_relax ws gw c ns s = Inr s' \<Longrightarrow> visited s' = visited s"
proof (induction ns arbitrary: s)
  case (Cons n ns)
  show ?case
  proof (cases "fst n \<in> visited s")
    case True
    with Cons show ?thesis by simp
  next
    case False
    from Cons.prems False obtain s1 where "navAStar_relax ws gw c ns s1 = Inr s'" "visited s1 = visited s"
      by (fastforce simp: Let_def split: if_splits option.splits sum.splits)
    with Cons.IH[of s1] show ?thesis by simp
  qed
qed simp

lemma navDijkstra_relax_explored:
  "navDijkstra_relax c ns s = Inr s' \<Longrightarrow> nExplored s' = nExplored s"
proof (induction ns arbitrary: s)
  case (Cons n ns)
  from Cons.prems show ?case
    by (auto simp: Let_def split: if_splits option.splits sum.splits dest!: Cons.IH)
qed simp

lemma navDijkstra_relax_visited:
  "navDijkstra_relax c ns s = Inr s' \<Longrightarrow> visited s' = visited s"
proof (induction ns arbitrary: s)
  case (Cons n ns)
  show ?case
  proof (cases "fst n \<in> visited s")
    case True
    with Cons show ?thesis by simp
  next
    case False
    from Cons.prems False obtain s1 where "navDijkstra_relax c ns s1 = Inr s'" "visited s1 = visited s"
      by (fastforce simp: Let_def split: if_splits option.splits sum.splits)
    with Cons.IH[of s1] show ?thesis by simp
  qed
qed simp

lemma navGreedy_relax_explored:
  "navGreedy_relax ws gw c ns s = Inr s' \<Longrightarrow> nExplored s' = nExplored s"
proof (induction ns arbitrary: s)
  case (Cons n ns)
  from Cons.prems show ?case
    by (auto simp: Let_def split: if_splits option.splits sum.splits dest!: Cons.IH)
qed simp

lemma navGreedy_relax_visited:
  "navGreedy_relax ws gw c ns s = Inr s' \<Longrightarrow> visited s' = visited s"
proof (induction ns arbitrary: s)
  case (Cons n ns)
  show ?case
  proof (cases "fst n \<in> visited s")
    case True
    with Cons show ?thesis by simp
  next
    case False
    from Cons.prems False obtain s1 where "navGreedy_relax ws gw c ns s1 = Inr s'" "visited s1 = visited s"
      by (fastforce simp: Let_def split: if_splits option.splits sum.splits)
    with Cons.IH[of s1] show ?thesis by simp
  qed
qed simp

lemmas navAStar_relax_closed = conjI[OF navAStar_relax_explored navAStar_relax_visited]
lemmas navDijkstra_relax_closed = conjI[OF navDijkstra_relax_explored navDijkstra_relax_visited]
lemmas navGreedy_relax_closed = conjI[OF navGreedy_relax_explored navGreedy_relax_visited]

lemma map_sum_Break:
  "map_sum id (\<lambda>r. Break (Some r)) z \<noteq> Inr (Continue s)"
  "map_sum id (\<lambda>r. Break (Some r)) z = Inr (Break (Some ra)) \<longleftrightarrow> z = Inr ra"
  by (cases z; auto)+

text \<open>The three ways in which an iteration of a navmesh search goes on or returns a result.\<close>

lemma nav_body_cases:
  assumes body: "nav_body relax finish nm adj goalId s = Some (Inr it)"
    and relax: "\<forall>c ns t t'. relax c ns t = Inr t' \<longrightarrow> nExplored t' = nExplored t \<and> visited t' = visited t"
    and it: "it \<noteq> Break None"
  obtains (stale) e rest where "openSet (search s) = e # rest" "fst e \<in> visited (search s)"
      "it = Continue (s\<lparr>search := (search s)\<lparr>openSet := rest\<rparr>\<rparr>)"
  | (goal) e rest r where "openSet (search s) = e # rest" "fst e \<notin> visited (search s)"
      "it = Break (Some r)"
      "finish (cameFrom (search s)) (fst e) (Suc (nExplored (search s)))
         (visitedNodes s @ [waypointAt (waypoints nm) (fst e)]) = Some (Inr r)"
  | (expand) e rest s' where "openSet (search s) = e # rest" "fst e \<notin> visited (search s)"
      "it = Continue s'" "visited (search s') = insert (fst e) (visited (search s))"
      "nExplored (search s') = Suc (nExplored (search s))"
      "visitedNodes s' = visitedNodes s @ [waypointAt (waypoints nm) (fst e)]"
proof (cases "openSet (search s)")
  case Nil
  with body it show ?thesis by (simp add: nav_body_def)
next
  case (Cons e rest)
  show ?thesis
  proof (cases "fst e \<in> visited (search s)")
    case True
    with body Cons have "it = Continue (s\<lparr>search := (search s)\<lparr>openSet := rest\<rparr>\<rparr>)"
      by (simp add: nav_body_def)
    from stale[OF Cons True this] show ?thesis .
  next
    case False
    let ?s1 = "\<lparr>search = (search s)\<lparr>openSet := rest,
                                   visited := insert (fst e) (visited (search s)),
                                   nExplored := Suc (nExplored (search s))\<rparr>,
                visitedNodes = visitedNodes s @ [waypointAt (waypoints nm) (fst e)]\<rparr>"
    show ?thesis
    proof (cases "fst e = goalId")
      case True
      with body Cons False obtain z where
        z: "finish (cameFrom (search s)) (fst e) (Suc (nExplored (search s)))
              (visitedNodes s @ [waypointAt (waypoints nm) (fst e)]) = Some z"
        and m: "map_sum id (\<lambda>r. Break (Some r)) z = Inr it"
        by (auto simp: nav_body_def Let_def)
      from m obtain r where "z = Inr r" "it = Break (Some r)" by (cases z) auto
      with z goal[OF Cons False] show ?thesis by simp
    next
      case ng: False
      with body Cons False obtain t' where
        r: "relax (fst e) (case adj (fst e) of None \<Rightarrow> [] | Some ns \<Rightarrow> ns) (search ?s1) = Inr t'"
        and it': "it = Continue (?s1\<lparr>search := t'\<rparr>)"
        by (auto simp: nav_body_def Let_def split: sum.splits)
      from relax[rule_format, OF r] have "nExplored t' = Suc (nExplored (search s))"
        "visited t' = insert (fst e) (visited (search s))" by simp_all
      then show ?thesis by (intro expand[OF Cons False it']) simp_all
    qed
  qed
qed

lemma nav_loop_order:
  assumes run: "while_loop (nav_body relax finish nm adj goalId) s0 = Some (Inr (Some r))"
    and relax': "\<forall>c ns t t'. relax c ns t = Inr t' \<longrightarrow> nExplored t' = nExplored t \<and> visited t' = visited t"
    and finish': "\<forall>cf c n vs r. finish cf c n vs = Some (Inr r) \<longrightarrow>
                   exploredNodes r = Some vs \<and> nodesExplored (metrics r) = n"
  shows "\<exists>order. closedIds (nav_body relax finish nm adj goalId) s0 = Some order
           \<and> distinct order \<and> set order \<inter> visited (search s0) = {}
           \<and> exploredNodes r = Some (visitedNodes s0 @ map (waypointAt (waypoints nm)) order)
           \<and> nodesExplored (metrics r) = nExplored (search s0) + length order"
proof -
  note relax = relax'[rule_format] and finish = finish'[rule_format]
  let ?body = "nav_body relax finish nm adj goalId"
  let ?P = "\<lambda>s out. \<forall>r. out = Inr (Some r) \<longrightarrow>
       (\<exists>order. closedIds ?body s = Some order
           \<and> distinct order \<and> set order \<inter> visited (search s) = {}
           \<and> exploredNodes r = Some (visitedNodes s @ map (waypointAt (waypoints nm)) order)
           \<and> nodesExplored (metrics r) = nExplored (search s) + length order)"
  have "?body = ?body \<longrightarrow> ?P s0 (Inr (Some r) :: error + nav_result option)"
  proof (rule while_loop.raw_induct[where P = "\<lambda>b s out. b = ?body \<longrightarrow> ?P s out", OF _ run],
      goal_cases)
    case (1 loop b s out)
    show ?case
    proof (intro impI allI)
      fix r
      assume b: "b = ?body" and out: "out = Inr (Some r)"
      from 1(2) b out obtain it where body: "?body s = Some (Inr it)"
        and nxt: "(case it of Break v \<Rightarrow> Some (Inr v) | Continue s' \<Rightarrow> loop ?body s')
                     = Some (Inr (Some r))"
        by (auto split: Option.bind_splits sum.splits)
      from nxt have nb: "it \<noteq> Break None" by auto
      show "\<exists>order. closedIds ?body s = Some order
           \<and> distinct order \<and> set order \<inter> visited (search s) = {}
           \<and> exploredNodes r = Some (visitedNodes s @ map (waypointAt (waypoints nm)) order)
           \<and> nodesExplored (metrics r) = nExplored (search s) + length order"
      proof (rule nav_body_cases[OF body relax' nb], goal_cases stale goal expand)
        case (stale e rest)
        let ?s' = "s\<lparr>search := (search s)\<lparr>openSet := rest\<rparr>\<rparr>"
        from nxt stale(3) have "loop ?body ?s' = Some (Inr (Some r))" by simp
        from 1(1)[OF this] obtain order where o: "closedIds ?body ?s' = Some order"
          "distinct order" "set order \<inter> visited (search ?s') = {}"
          "exploredNodes r = Some (visitedNodes ?s' @ map (waypointAt (waypoints nm)) order)"
          "nodesExplored (metrics r) = nExplored (search ?s') + length order"
          by blast
        have "closedIds ?body s = Some order"
          by (subst closedIds.simps) (simp add: stale body o(1))
        with o show ?thesis by simp
      next
        case (goal e rest r')
        from nxt goal(3) have "r' = r" by simp
        with finish[OF goal(4)] have
          "exploredNodes r = Some (visitedNodes s @ [waypointAt (waypoints nm) (fst e)])"
          "nodesExplored (metrics r) = Suc (nExplored (search s))" by simp_all
        moreover have "closedIds ?body s = Some [fst e]"
          by (subst closedIds.simps) (simp add: goal body)
        ultimately show ?thesis using goal(2) by simp
      next
        case (expand e rest s')
        from nxt expand(3) have "loop ?body s' = Some (Inr (Some r))" by simp
        from 1(1)[OF this] obtain order where o: "closedIds ?body s' = Some order"
          "distinct order" "set order \<inter> visited (search s') = {}"
          "exploredNodes r = Some (visitedNodes s' @ map (waypointAt (waypoints nm)) order)"
          "nodesExplored (metrics r) = nExplored (search s') + length order"
          by blast
        have "closedIds ?body s = Some (fst e # order)"
          by (subst closedIds.simps) (simp add: expand body o(1))
        moreover from o(3) expand(4) have "fst e \<notin> set order" "set order \<inter> visited (search s) = {}"
          by auto
        ultimately show ?thesis using o expand by simp
      qed
    qed
  qed
  then show ?thesis by simp
qed

lemma astarNavResult_explored:
  "astarNavResult fl cf c nm start goal n vs = Some (Inr r) \<Longrightarrow>
     exploredNodes r = Some vs \<and> nodesExplored (metrics r) = n"
  by (auto simp: astarNavResult_def navResult_def Let_def split: Option.bind_splits sum.splits)

lemma buildNavMeshResult_explored:
  "buildNavMeshResult fl cf c nm start goal g n vs = Some (Inr r) \<Longrightarrow>
     exploredNodes r = Some vs \<and> nodesExplored (metrics r) = n"
  by (auto simp: buildNavMeshResult_def andThen_def navResult_def Let_def
           split: Option.bind_splits sum.splits)

lemma nav_entry_run:
  assumes "nav_entry nm start goal g run = Some (Inr (Some r))"
  shows "\<exists>sw gw adj. findNearestWaypoint (waypoints nm) start g = Some (Inr (Some sw))
           \<and> findNearestWaypoint (waypoints nm) goal g = Some (Inr (Some gw))
           \<and> buildAdjacencyList nm = Some (Inr adj) \<and> run sw gw adj = Some (Inr (Some r))"
  using assms
  by (auto simp: nav_entry_def andThen_def split: Option.bind_splits sum.splits option.splits)

lemma nav_entry_eval:
  assumes "findNearestWaypoint (waypoints nm) start g = Some (Inr (Some sw))"
    and "findNearestWaypoint (waypoints nm) goal g = Some (Inr (Some gw))"
    and "buildAdjacencyList nm = Some (Inr adj)"
  shows "nav_entry nm start goal g run = run sw gw adj"
  using assms by (simp add: nav_entry_def andThen_def)

lemma nav_search_order:
  assumes run: "nav_entry nm start goal g (\<lambda>sw gw adj. while_loop (body gw adj) (init sw gw))
                  = Some (Inr (Some r))"
    and body: "\<And>gw adj. \<exists>relax finish goalId. body gw adj = nav_body relax finish nm adj goalId
                 \<and> (\<forall>c ns t t'. relax c ns t = Inr t' \<longrightarrow> nExplored t' = nExplored t \<and> visited t' = visited t)
                 \<and> (\<forall>cf c n vs r. finish cf c n vs = Some (Inr r) \<longrightarrow>
                       exploredNodes r = Some vs \<and> nodesExplored (metrics r) = n)"
    and init: "\<And>sw gw. visitedNodes (init sw gw) = [] \<and> nExplored (search (init sw gw)) = 0"
  shows "\<exists>order. closingOrder body init nm start goal g = Some (Inr (Some order))
           \<and> distinct order
           \<and> exploredNodes r = Some (map (waypointAt (waypoints nm)) order)
           \<and> nodesExplored (metrics r) = length order"
proof -
  from nav_entry_run[OF run] obtain sw gw adj where
    sw: "findNearestWaypoint (waypoints nm) start g = Some (Inr (Some sw))"
    and gw: "findNearestWaypoint (waypoints nm) goal g = Some (Inr (Some gw))"
    and adj: "buildAdjacencyList nm = Some (Inr adj)"
    and loop: "while_loop (body gw adj) (init sw gw) = Some (Inr (Some r))"
    by blast
  note entry = nav_entry_eval[OF sw gw adj]
  from body[of gw adj] obtain relax finish goalId where
    b: "body gw adj = nav_body relax finish nm adj goalId"
    and relax: "\<forall>c ns t t'. relax c ns t = Inr t' \<longrightarrow> nExplored t' = nExplored t \<and> visited t' = visited t"
    and finish: "\<forall>cf c n vs r. finish cf c n vs = Some (Inr r) \<longrightarrow>
                   exploredNodes r = Some vs \<and> nodesExplored (metrics r) = n"
    by blast
  from nav_loop_order[OF loop[unfolded b] relax finish] obtain order where
    "closedIds (body gw adj) (init sw gw) = Some order" "distinct order"
    "exploredNodes r = Some (visitedNodes (init sw gw) @ map (waypointAt (waypoints nm)) order)"
    "nodesExplored (metrics r) = nExplored (search (init sw gw)) + length order"
    unfolding b by blast
  with init[of sw gw] show ?thesis
    unfolding closingOrder_def entry by simp
qed

lemma navmeshAStar_order:
  assumes "navmeshAStar fl nm start goal g = Some (Inr (Some r))"
  shows "\<exists>order. closingOrder (navAStar_body fl nm start goal) navAStar_init nm start goal g
                   = Some (Inr (Some order))
           \<and> distinct order
           \<and> exploredNodes r = Some (map (waypointAt (waypoints nm)) order)
           \<and> nodesExplored (metrics r) = length order"
proof (rule nav_search_order[OF assms[unfolded navmeshAStar_def]])
  fix gw adj
  show "\<exists>relax finish goalId. navAStar_body fl nm start goal gw adj = nav_body relax finish nm adj goalId
          \<and> (\<forall>c ns t t'. relax c ns t = Inr t' \<longrightarrow> nExplored t' = nExplored t \<and> visited t' = visited t)
          \<and> (\<forall>cf c n vs r. finish cf c n vs = Some (Inr r) \<longrightarrow>
                exploredNodes r = Some vs \<and> nodesExplored (metrics r) = n)"
    unfolding navAStar_body_def
    by (intro exI conjI, rule refl) (auto dest: navAStar_relax_closed astarNavResult_explored)
next
  fix sw gw
  show "visitedNodes (navAStar_init sw gw) = [] \<and> nExplored (search (navAStar_init sw gw)) = 0"
    by (simp add: navAStar_init_def Let_def)
qed

lemma navmeshDijkstra_order:
  assumes "navmeshDijkstra fl nm start goal g = Some (Inr (Some r))"
  shows "\<exists>order. closingOrder (navDijkstra_body fl nm start goal g) navDijkstra_init nm start goal g
                   = Some (Inr (Some order))
           \<and> distinct order
           \<and> exploredNodes r = Some (map (waypointAt (waypoints nm)) order)
           \<and> nodesExplored (metrics r) = length order"
proof (rule nav_search_order[OF assms[unfolded navmeshDijkstra_def]])
  fix gw adj
  show "\<exists>relax finish goalId. navDijkstra_body fl nm start goal g gw adj = nav_body relax finish nm adj goalId
          \<and> (\<forall>c ns t t'. relax c ns t = Inr t' \<longrightarrow> nExplored t' = nExplored t \<and> visited t' = visited t)
          \<and> (\<forall>cf c n vs r. finish cf c n vs = Some (Inr r) \<longrightarrow>
                exploredNodes r = Some vs \<and> nodesExplored (metrics r) = n)"
    unfolding navDijkstra_body_def
    by (intro exI conjI, rule refl) (auto dest: navDijkstra_relax_closed buildNavMeshResult_explored)
next
  fix sw gw
  show "visitedNodes (navDijkstra_init sw gw) = [] \<and> nExplored (search (navDijkstra_init sw gw)) = 0"
    by (simp add: navDijkstra_init_def)
qed

lemma navmeshGreedy_order:
  assumes "navmeshGreedy fl nm start goal g = Some (Inr (Some r))"
  shows "\<exists>order. closingOrder (navGreedy_body fl nm start goal g) navGreedy_init nm start goal g
                   = Some (Inr (Some order))
           \<and> distinct order
           \<and> exploredNodes r = Some (map (waypointAt (waypoints nm)) order)
           \<and> nodesExplored (metrics r) = length order"
proof (rule nav_search_order[OF assms[unfolded navmeshGreedy_def]])
  fix gw adj
  show "\<exists>relax finish goalId. navGreedy_body fl nm start goal g gw adj = nav_body relax finish nm adj goalId
          \<and> (\<forall>c ns t t'. relax c ns t = Inr t' \<longrightarrow> nExplored t' = nExplored t \<and> visited t' = visited t)
          \<and> (\<forall>cf c n vs r. finish cf c n vs = Some (Inr r) \<longrightarrow>
                exploredNodes r = Some vs \<and> nodesExplored (metrics r) = n)"
    unfolding navGreedy_body_def
    by (intro exI conjI, rule refl) (auto dest: navGreedy_relax_closed buildNavMeshResult_explored)
next
  fix sw gw
  show "visitedNodes (navGreedy_init sw gw) = [] \<and> nExplored (search (navGreedy_init sw gw)) = 0"
    by (simp add: navGreedy_init_def)
qed

lemma rrt_loop_explored:
  "rrt_loop fl rnd g goal rows cols i tr nodes k = Inr (Some r) \<Longrightarrow> exploredNodes r = None"
proof (induction i arbitrary: tr nodes k)
  case 0
  then show ?case by simp
next
  case (Suc i)
  from Suc.prems show ?case
  proof (cases rule: rrt_loop_cases)
    case (skip k')
    then show ?thesis by (rule Suc.IH)
  next
    case (add k' nearest newPos)
    from add(4) show ?thesis by (rule Suc.IH)
  next
    case (reach nearest newPos)
    then show ?thesis by (simp add: rrtResult_def)
  qed
qed

lemma rrt_explored:
  "rrt fl rnd g start goal rows cols n = Inr (Some r) \<Longrightarrow> exploredNodes r = None"
  unfolding rrt_def by (rule rrt_loop_explored)

lemma navmeshRRT_loop_explored:
  assumes "navmeshRRT_loop fl rnd ws g goal i tr explored nodes k = Inr (Some (r, t))"
    and "tr \<noteq> []" and "explored = map position (tl tr)" and "nodes = length explored"
  shows "exploredNodes r = Some (map position (tl t)) \<and> nodesExplored (metrics r) = length (tl t)"
  using assms
proof (induction i arbitrary: tr explored nodes k)
  case 0
  then show ?case by simp
next
  case (Suc i)
  from Suc.prems(1) show ?case
  proof (cases rule: navmeshRRT_loop_cases)
    case (skip k')
    from Suc.IH[OF this Suc.prems(2,3,4)] show ?thesis .
  next
    case (add k' nearest newPos)
    show ?thesis
      by (rule Suc.IH[OF add(5)]) (use Suc.prems in \<open>simp_all\<close>)
  next
    case (reach nearest newPos smoothPath)
    with Suc.prems show ?thesis by (simp add: navRRTResult_def)
  qed
qed

lemma navmeshRRT_explored:
  assumes "navmeshRRT fl rnd nm start goal g n = Inr (Some r)"
  shows "\<exists>tr. navmeshRRT_tree fl rnd nm start goal g n = Inr (Some tr)
           \<and> exploredNodes r = Some (map position (tl tr))
           \<and> nodesExplored (metrics r) = length (tl tr)"
proof -
  from assms obtain t where
    run: "navmeshRRT_run fl rnd nm start goal g n = Inr (Some (r, t))"
    unfolding navmeshRRT_def
    by (cases "navmeshRRT_run fl rnd nm start goal g n") auto
  from navmeshRRT_loop_explored[OF run[unfolded navmeshRRT_run_def]] run show ?thesis
    by (simp add: navmeshRRT_tree_def)
qed

lemma corner_los2:
  "hasLineOfSight (Pos 0 1) (Pos 0 1) cornerGrid = Some (Inr True)"
  "hasLineOfSight (Pos 0 1) (Pos 1 0) cornerGrid = Some (Inr True)"
  "hasLineOfSight (Pos 0 1) (Pos 1 1) cornerGrid = Some (Inr True)"
  "hasLineOfSight (Pos 1 1) (Pos 0 1) cornerGrid = Some (Inr True)"
  "hasLineOfSight (Pos 1 1) (Pos 1 0) cornerGrid = Some (Inr True)"
  "hasLineOfSight (Pos 1 1) (Pos 1 1) cornerGrid = Some (Inr True)"
  by code_simp+

lemma corner_distance2:
  "distance (Pos 0 1) (Pos 0 1) = 0"
  "distance (Pos 0 1) (Pos 1 0) = sqrt 2"
  "distance (Pos 0 1) (Pos 1 1) = 1"
  "distance (Pos 1 0) (Pos 1 1) = 1"
  "distance (Pos 1 1) (Pos 0 1) = 1"
  "distance (Pos 1 1) (Pos 1 0) = 1"
  "distance (Pos 1 1) (Pos 1 1) = 0"
  by (simp_all add: distance_def)

lemma corner_nearest:
  "findNearestWaypoint (waypoints cornerMesh) (Pos 0 1) cornerGrid = Some (Inr (Some (Waypoint 0 (Pos 0 1))))"
  "findNearestWaypoint (waypoints cornerMesh) (Pos 1 1) cornerGrid = Some (Inr (Some (Waypoint 2 (Pos 1 1))))"
  by (simp_all add: findNearestWaypoint_def cornerMesh_def nearer_def corner_los2 corner_distance2)

lemma corner_adjacency:
  "\<exists>adj. buildAdjacencyList cornerMesh = Some (Inr adj)
      \<and> adj 0 = Some [(1, sqrt 2), (2, 1)]"
  by (simp add: buildAdjacencyList_def cornerMesh_def addEdge_def)

lemma corner_smooth:
  "smoothNavMeshPath (\<lambda>x. x) [Some (Pos 0 1), Some (Pos 0 1), Some (Pos 1 1), Some (Pos 1 1)]
     = Inr [Pos 0 1, Pos 1 1]"
  "smoothNavMeshPath (\<lambda>x. x) [Some (Pos 0 1), Some (Pos 1 1)] = Inr [Pos 0 1, Pos 1 1]"
  "smoothNavMeshPath (\<lambda>x. x) [Some (Pos 0 1), Some (Pos 1 1), Some (Pos 1 1)] = Inr [Pos 0 1, Pos 1 1]"
  by (simp_all add: smoothNavMeshPath_def legCells_def pushCell_def lerp_def mathRound_def upto_0_1)

lemma corner_funnel:
  "funnelAlgorithm [Some (Pos 0 1), Some (Pos 0 1), Some (Pos 1 1), Some (Pos 1 1)] cornerGrid
     = Some (Inr [Some (Pos 0 1), Some (Pos 1 1)])"
  by code_simp

lemma corner_waypointAt:
  "waypointAt (waypoints cornerMesh) 0 = Some (Waypoint 0 (Pos 0 1))"
  "waypointAt (waypoints cornerMesh) (Suc 0) = Some (Waypoint 1 (Pos 1 0))"
  "waypointAt (waypoints cornerMesh) 2 = Some (Waypoint 2 (Pos 1 1))"
  by (simp_all add: waypointAt_def cornerMesh_def)

lemmas corner_eval = nav_entry_def andThen_def corner_nearest
        while_loop.simps closedIds.simps nav_body_def enqueue_def heuristicWaypoint_def heuristicAt_def
        corner_distance2 Let_def reconstructWaypointPath_def
        reconstructWaypointLoop.simps corner_waypointAt corner_smooth corner_funnel cornerResult_def
        navResult_def

lemma corner_astar:
  "navmeshAStar (\<lambda>x. x) cornerMesh (Pos 0 1) (Pos 1 1) cornerGrid = Some (Inr (Some cornerResult))"
  "closingOrder (navAStar_body (\<lambda>x. x) cornerMesh (Pos 0 1) (Pos 1 1)) navAStar_init
     cornerMesh (Pos 0 1) (Pos 1 1) cornerGrid = Some (Inr (Some [0, 2]))"
proof -
  obtain adj where adj: "buildAdjacencyList cornerMesh = Some (Inr adj)" "adj 0 = Some [(1, sqrt 2), (2, 1)]"
    using corner_adjacency by blast
  show "navmeshAStar (\<lambda>x. x) cornerMesh (Pos 0 1) (Pos 1 1) cornerGrid = Some (Inr (Some cornerResult))"
    by (simp add: navmeshAStar_def navAStar_body_def navAStar_init_def adj corner_eval
        astarNavResult_def)
  show "closingOrder (navAStar_body (\<lambda>x. x) cornerMesh (Pos 0 1) (Pos 1 1)) navAStar_init
     cornerMesh (Pos 0 1) (Pos 1 1) cornerGrid = Some (Inr (Some [0, 2]))"
    by (simp add: closingOrder_def navAStar_body_def navAStar_init_def adj corner_eval
        astarNavResult_def)
qed

lemma corner_dijkstra:
  "navmeshDijkstra (\<lambda>x. x) cornerMesh (Pos 0 1) (Pos 1 1) cornerGrid = Some (Inr (Some cornerResult))"
  "closingOrder (navDijkstra_body (\<lambda>x. x) cornerMesh (Pos 0 1) (Pos 1 1) cornerGrid) navDijkstra_init
     cornerMesh (Pos 0 1) (Pos 1 1) cornerGrid = Some (Inr (Some [0, 2]))"
proof -
  obtain adj where adj: "buildAdjacencyList cornerMesh = Some (Inr adj)" "adj 0 = Some [(1, sqrt 2), (2, 1)]"
    using corner_adjacency by blast
  show "navmeshDijkstra (\<lambda>x. x) cornerMesh (Pos 0 1) (Pos 1 1) cornerGrid = Some (Inr (Some cornerResult))"
    by (simp add: navmeshDijkstra_def navDijkstra_body_def navDijkstra_init_def adj corner_eval
        buildNavMeshResult_def)
  show "closingOrder (navDijkstra_body (\<lambda>x. x) cornerMesh (Pos 0 1) (Pos 1 1) cornerGrid) navDijkstra_init
     cornerMesh (Pos 0 1) (Pos 1 1) cornerGrid = Some (Inr (Some [0, 2]))"
    by (simp add: closingOrder_def navDijkstra_body_def navDijkstra_init_def adj corner_eval
        buildNavMeshResult_def)
qed

lemma corner_greedy:
  "navmeshGreedy (\<lambda>x. x) cornerMesh (Pos 0 1) (Pos 1 1) cornerGrid = Some (Inr (Some cornerResult))"
  "closingOrder (navGreedy_body (\<lambda>x. x) cornerMesh (Pos 0 1) (Pos 1 1) cornerGrid) navGreedy_init
     cornerMesh (Pos 0 1) (Pos 1 1) cornerGrid = Some (Inr (Some [0, 2]))"
proof -
  obtain adj where adj: "buildAdjacencyList cornerMesh = Some (Inr adj)" "adj 0 = Some [(1, sqrt 2), (2, 1)]"
    using corner_adjacency by blast
  show "navmeshGreedy (\<lambda>x. x) cornerMesh (Pos 0 1) (Pos 1 1) cornerGrid = Some (Inr (Some cornerResult))"
    by (simp add: navmeshGreedy_def navGreedy_body_def navGreedy_init_def adj corner_eval
        buildNavMeshResult_def)
  show "closingOrder (navGreedy_body (\<lambda>x. x) cornerMesh (Pos 0 1) (Pos 1 1) cornerGrid) navGreedy_init
     cornerMesh (Pos 0 1) (Pos 1 1) cornerGrid = Some (Inr (Some [0, 2]))"
    by (simp add: closingOrder_def navGreedy_body_def navGreedy_init_def adj corner_eval
        buildNavMeshResult_def)
qed

text \<open>
  A run of \<^verbatim>\<open>navmeshRRT\<close> in which \<^verbatim>\<open>Math.random\<close> returns 0 throughout, in exact
  arithmetic: one iteration, from (0,1) to (1,1) on \<open>cornerGrid\<close>.
\<close>

lemma corner_rrt_run:
  "navmeshRRT_run (\<lambda>x. x) (\<lambda>k. 0) cornerMesh (Pos 0 1) (Pos 1 1) cornerGrid (Suc 0)
     = Inr (Some (navRRTResult [Pos 0 1, Pos 1 1] [Pos 1 1] 1,
                  [Node (Pos 0 1) None, Node (Pos 1 1) (Some (Node (Pos 0 1) None))]))"
  by (simp add: navmeshRRT_run_def randomWaypoint_def nearestNode_def extendOnMesh_def
      corner_distance2 lerp_def mathRound_def readObstacle_def isObstacle_def cornerGrid_def
      pathCrossesObstacleNavMesh_def upto_0_1 Let_def reconstructRRTPath_def corner_smooth)

lemma corner_rrt:
  "navmeshRRT (\<lambda>x. x) (\<lambda>k. 0) cornerMesh (Pos 0 1) (Pos 1 1) cornerGrid (Suc 0)
     = Inr (Some (navRRTResult [Pos 0 1, Pos 1 1] [Pos 1 1] 1))"
  "navmeshRRT_tree (\<lambda>x. x) (\<lambda>k. 0) cornerMesh (Pos 0 1) (Pos 1 1) cornerGrid (Suc 0)
     = Inr (Some [Node (Pos 0 1) None, Node (Pos 1 1) (Some (Node (Pos 0 1) None))])"
  by (simp_all add: navmeshRRT_def navmeshRRT_tree_def corner_rrt_run)

lemma grid_results_without_explored:
  "astar g start goal rows cols = Some (Inr (Some r)) \<Longrightarrow> exploredNodes r = None"
  "dijkstra g start goal rows cols = Some (Inr (Some r)) \<Longrightarrow> exploredNodes r = None"
  "greedyBestFirst g start goal rows cols = Some (Inr (Some r)) \<Longrightarrow> exploredNodes r = None"
  "jps g start goal rows cols = Some (Inr (Some r)) \<Longrightarrow> exploredNodes r = None"
  "thetaStar g start goal rows cols = Some (Inr (Some r)) \<Longrightarrow> exploredNodes r = None"
  by (auto dest!: astar_shape dijkstra_shape greedy_shape jps_shape theta_shape
           simp: stepResult_def distanceResult_def)

text \<open>
  C4, as the code has it. The result of a navmesh search has an \<^verbatim>\<open>exploredNodes\<close>
  array that records the visitation order and is as long as the reported
  \<^verbatim>\<open>nodesExplored\<close>: for \<^verbatim>\<open>navmeshAStar\<close>, \<^verbatim>\<open>navmeshDijkstra\<close> and
  \<^verbatim>\<open>navmeshGreedy\<close> it holds the waypoints of the identifiers that the run closed, each
  once, in the order of closing; for \<^verbatim>\<open>navmeshRRT\<close> it holds the positions of the nodes
  that the run added to its tree, in the order of the tree. The result of a grid search,
  RRT among them, has no \<^verbatim>\<open>exploredNodes\<close>.
\<close>

theorem C4_explored_nodes:
  "(navmeshAStar fl nm start goal g = Some (Inr (Some ra))
      \<longrightarrow> (\<exists>order. closingOrder (navAStar_body fl nm start goal) navAStar_init nm start goal g
                      = Some (Inr (Some order))
              \<and> distinct order
              \<and> exploredNodes ra = Some (map (waypointAt (waypoints nm)) order)
              \<and> nodesExplored (metrics ra) = length order))
   \<and> (navmeshDijkstra fl nm start goal g = Some (Inr (Some rd))
      \<longrightarrow> (\<exists>order. closingOrder (navDijkstra_body fl nm start goal g) navDijkstra_init
                      nm start goal g = Some (Inr (Some order))
              \<and> distinct order
              \<and> exploredNodes rd = Some (map (waypointAt (waypoints nm)) order)
              \<and> nodesExplored (metrics rd) = length order))
   \<and> (navmeshGreedy fl nm start goal g = Some (Inr (Some rg))
      \<longrightarrow> (\<exists>order. closingOrder (navGreedy_body fl nm start goal g) navGreedy_init
                      nm start goal g = Some (Inr (Some order))
              \<and> distinct order
              \<and> exploredNodes rg = Some (map (waypointAt (waypoints nm)) order)
              \<and> nodesExplored (metrics rg) = length order))
   \<and> (navmeshRRT fl rnd nm start goal g n = Inr (Some rr)
      \<longrightarrow> (\<exists>tr. navmeshRRT_tree fl rnd nm start goal g n = Inr (Some tr)
              \<and> exploredNodes rr = Some (map position (tl tr))
              \<and> nodesExplored (metrics rr) = length (tl tr)))
   \<and> (astar gg s t rows cols = Some (Inr (Some ga)) \<longrightarrow> exploredNodes ga = None)
   \<and> (dijkstra gg s t rows cols = Some (Inr (Some gd)) \<longrightarrow> exploredNodes gd = None)
   \<and> (greedyBestFirst gg s t rows cols = Some (Inr (Some gb)) \<longrightarrow> exploredNodes gb = None)
   \<and> (jps gg s t rows cols = Some (Inr (Some gj)) \<longrightarrow> exploredNodes gj = None)
   \<and> (thetaStar gg s t rows cols = Some (Inr (Some gt)) \<longrightarrow> exploredNodes gt = None)
   \<and> (rrt fl rnd gg s t rows cols n = Inr (Some gr) \<longrightarrow> exploredNodes gr = None)"
  by (intro conjI impI navmeshAStar_order navmeshDijkstra_order navmeshGreedy_order
      navmeshRRT_explored grid_results_without_explored rrt_explored)

theorem C4_explored_nodes_witness:
  "navmeshAStar (\<lambda>x. x) cornerMesh (Pos 0 1) (Pos 1 1) cornerGrid = Some (Inr (Some cornerResult))
   \<and> navmeshDijkstra (\<lambda>x. x) cornerMesh (Pos 0 1) (Pos 1 1) cornerGrid = Some (Inr (Some cornerResult))
   \<and> navmeshGreedy (\<lambda>x. x) cornerMesh (Pos 0 1) (Pos 1 1) cornerGrid = Some (Inr (Some cornerResult))
   \<and> closingOrder (navAStar_body (\<lambda>x. x) cornerMesh (Pos 0 1) (Pos 1 1)) navAStar_init
        cornerMesh (Pos 0 1) (Pos 1 1) cornerGrid = Some (Inr (Some [0, 2]))
   \<and> exploredNodes cornerResult = Some (map (waypointAt (waypoints cornerMesh)) [0, 2])
   \<and> nodesExplored (metrics cornerResult) = 2
   \<and> navmeshRRT (\<lambda>x. x) (\<lambda>k. 0) cornerMesh (Pos 0 1) (Pos 1 1) cornerGrid (Suc 0)
        = Inr (Some (navRRTResult [Pos 0 1, Pos 1 1] [Pos 1 1] 1))
   \<and> exploredNodes (navRRTResult [Pos 0 1, Pos 1 1] [Pos 1 1] 1) = Some [Pos 1 1]
   \<and> astar (emptyGrid 2 2) (Pos 0 0) (Pos 1 1) 2 2
        = Some (Inr (Some (stepResult [Pos 0 0, Pos 1 0, Pos 1 1] 3)))
   \<and> dijkstra (emptyGrid 2 2) (Pos 0 0) (Pos 1 1) 2 2
        = Some (Inr (Some (stepResult [Pos 0 0, Pos 1 0, Pos 1 1] 4)))
   \<and> greedyBestFirst (emptyGrid 2 2) (Pos 0 0) (Pos 1 1) 2 2
        = Some (Inr (Some (stepResult [Pos 0 0, Pos 1 0, Pos 1 1] 3)))
   \<and> jps (emptyGrid 2 2) (Pos 0 0) (Pos 1 1) 2 2
        = Some (Inr (Some (distanceResult [Pos 0 0, Pos 1 1] 2)))
   \<and> thetaStar (emptyGrid 2 2) (Pos 0 0) (Pos 1 1) 2 2
        = Some (Inr (Some (distanceResult [Pos 0 0, Pos 1 1] 2)))
   \<and> rrt (\<lambda>x. x) (\<lambda>k. 0) (emptyGrid 2 2) (Pos 0 0) (Pos 1 1) 2 2 (Suc 0)
        = Inr (Some (rrtResult [Pos 0 0, Pos 1 1] 1
                       [Node (Pos 0 0) None, Node (Pos 1 1) (Some (Node (Pos 0 0) None))]))
   \<and> exploredNodes (stepResult [Pos 0 0, Pos 1 0, Pos 1 1] 3) = None
   \<and> exploredNodes (distanceResult [Pos 0 0, Pos 1 1] 2) = None"
proof -
  note C4_explored_nodes[of "\<lambda>x. x" cornerMesh "Pos 0 1" "Pos 1 1" cornerGrid cornerResult
      cornerResult cornerResult "\<lambda>k. 0" "Suc 0" "navRRTResult [Pos 0 1, Pos 1 1] [Pos 1 1] 1"
      "emptyGrid 2 2" "Pos 0 0" "Pos 1 1" 2 2
      "stepResult [Pos 0 0, Pos 1 0, Pos 1 1] 3" "stepResult [Pos 0 0, Pos 1 0, Pos 1 1] 4"
      "stepResult [Pos 0 0, Pos 1 0, Pos 1 1] 3" "distanceResult [Pos 0 0, Pos 1 1] 2"
      "distanceResult [Pos 0 0, Pos 1 1] 2"
      "rrtResult [Pos 0 0, Pos 1 1] 1
         [Node (Pos 0 0) None, Node (Pos 1 1) (Some (Node (Pos 0 0) None))]"]
  with corner_astar corner_dijkstra corner_greedy corner_rrt
    astar_empty2 dijkstra_empty2 greedy_empty2 jps_empty2 theta_empty2 rrt_empty2
  show ?thesis
    by (simp add: cornerResult_def navResult_def navRRTResult_def stepResult_def
        distanceResult_def)
qed

text \<open>
  C4 as stated fails for every grid search: on the empty 2 by 2 grid, from (0,0) to
  (1,1), each of the six returns a result without \<^verbatim>\<open>exploredNodes\<close>.
\<close>

theorem C4_grid_results_without_explored:
  "astar (emptyGrid 2 2) (Pos 0 0) (Pos 1 1) 2 2
     = Some (Inr (Some (stepResult [Pos 0 0, Pos 1 0, Pos 1 1] 3)))
   \<and> dijkstra (emptyGrid 2 2) (Pos 0 0) (Pos 1 1) 2 2
     = Some (Inr (Some (stepResult [Pos 0 0, Pos 1 0, Pos 1 1] 4)))
   \<and> greedyBestFirst (emptyGrid 2 2) (Pos 0 0) (Pos 1 1) 2 2
     = Some (Inr (Some (stepResult [Pos 0 0, Pos 1 0, Pos 1 1] 3)))
   \<and> jps (emptyGrid 2 2) (Pos 0 0) (Pos 1 1) 2 2
     = Some (Inr (Some (distanceResult [Pos 0 0, Pos 1 1] 2)))
   \<and> thetaStar (emptyGrid 2 2) (Pos 0 0) (Pos 1 1) 2 2
     = Some (Inr (Some (distanceResult [Pos 0 0, Pos 1 1] 2)))
   \<and> rrt (\<lambda>x. x) (\<lambda>k. 0) (emptyGrid 2 2) (Pos 0 0) (Pos 1 1) 2 2 (Suc 0)
     = Inr (Some (rrtResult [Pos 0 0, Pos 1 1] 1
                    [Node (Pos 0 0) None, Node (Pos 1 1) (Some (Node (Pos 0 0) None))]))
   \<and> exploredNodes (stepResult [Pos 0 0, Pos 1 0, Pos 1 1] 3) = None
   \<and> exploredNodes (stepResult [Pos 0 0, Pos 1 0, Pos 1 1] 4) = None
   \<and> exploredNodes (distanceResult [Pos 0 0, Pos 1 1] 2) = None
   \<and> exploredNodes (rrtResult [Pos 0 0, Pos 1 1] 1
        [Node (Pos 0 0) None, Node (Pos 1 1) (Some (Node (Pos 0 0) None))]) = None"
  by (simp add: astar_empty2 dijkstra_empty2 greedy_empty2 jps_empty2 theta_empty2 rrt_empty2)
     (simp add: stepResult_def distanceResult_def rrtResult_def)

section \<open>Properties: the cost of Theta* against the cost of A*\<close>

lemma sorted_enqueue: "sorted (map snd (enqueue q e p))"
  by (simp add: enqueue_def)

lemma sorted_head_min:
  assumes "sorted (map snd (e # rest))" and "e' \<in> set (e # rest)"
  shows "snd e \<le> snd e'"
  using assms by auto

lemma heuristic_step: "adjacent4 a b \<Longrightarrow> heuristic a goal \<le> heuristic b goal + 1"
  unfolding adjacent4_def heuristic_def by arith

lemma walk_heuristic:
  assumes "successively (legalMove g rows cols) P"
  shows "j \<le> i \<Longrightarrow> i < length P \<Longrightarrow> heuristic (P ! j) goal \<le> heuristic (P ! i) goal + int (i - j)"
proof (induction i)
  case 0
  then show ?case by simp
next
  case (Suc i)
  show ?case
  proof (cases "j = Suc i")
    case True
    then show ?thesis by simp
  next
    case False
    with Suc.prems have le: "j \<le> i" and lt: "i < length P" by simp_all
    have "legalMove g rows cols (P ! i) (P ! Suc i)"
      using successively_nth[OF assms Suc.prems(2)] .
    then have "heuristic (P ! i) goal \<le> heuristic (P ! Suc i) goal + 1"
      by (simp add: legalMove_def heuristic_step)
    moreover have "int (Suc i - j) = int (i - j) + 1" using le by simp
    ultimately show ?thesis using Suc.IH[OF le lt] by linarith
  qed
qed

lemma distance_triangle: "distance a c \<le> distance a b + distance b c"
proof -
  have "sqrt ((real_of_int (row a - row b) + real_of_int (row b - row c))\<^sup>2
            + (real_of_int (col a - col b) + real_of_int (col b - col c))\<^sup>2)
        \<le> distance a b + distance b c"
    unfolding distance_def by (rule real_sqrt_sum_squares_triangle_ineq)
  moreover have "real_of_int (row a - row b) + real_of_int (row b - row c) = real_of_int (row a - row c)"
    by simp
  moreover have "real_of_int (col a - col b) + real_of_int (col b - col c) = real_of_int (col a - col c)"
    by simp
  ultimately show ?thesis unfolding distance_def[of a c] by simp
qed

lemma getNeighbors8_legal:
  assumes "getNeighbors a g rows cols True = Inr ns" and "legalMove g rows cols a b"
  shows "b \<in> set ns"
proof -
  from assms(2) obtain d where "d \<in> set directions4" "b = Pos (row a + fst d) (col a + snd d)"
    unfolding legalMove_def adjacent4_iff by blast
  moreover have "set directions4 \<subseteq> set directions8" by (auto simp: directions8_def)
  ultimately have "\<exists>d\<in>set directions8. b = Pos (row a + fst d) (col a + snd d)" by blast
  with assms(2) show ?thesis
    unfolding neighborsIn_set[OF assms(1)[unfolded getNeighbors_def if_True]]
    by (simp add: legalMove_def)
qed

lemma rounded_le:
  assumes "x \<le> real k"
  shows "real_of_int (mathRound (x * 10)) / 10 \<le> real k"
proof -
  have "x * 10 + 1 / 2 < real_of_int (int (10 * k) + 1)" using assms by simp
  then have "mathRound (x * 10) < int (10 * k) + 1"
    unfolding mathRound_def by (simp only: floor_less_iff)
  then have "mathRound (x * 10) \<le> int (10 * k)" by simp
  then have "real_of_int (mathRound (x * 10)) \<le> real (10 * k)"
    by (metis of_int_le_iff of_int_of_nat_eq)
  then show ?thesis by simp
qed


lemma queueInv_update:
  assumes inv: "queueInv goal s"
    and g': "gScore s' = (gScore s)(n \<mapsto> t)"
    and q': "openSet s' = enqueue (openSet s) n (t + real_of_int (heuristic n goal))"
    and v': "visited s' = visited s"
    and better: "\<forall>gn. gScore s n = Some gn \<longrightarrow> t < gn"
  shows "queueInv goal s'"
proof -
  have set': "set (openSet s') = insert (n, t + real_of_int (heuristic n goal)) (set (openSet s))"
    by (simp add: q' set_enqueue)
  have a: "sorted (map snd (openSet s'))" by (simp add: q' sorted_enqueue)
  have b: "\<exists>ge. gScore s' (fst e) = Some ge \<and> ge + real_of_int (heuristic (fst e) goal) \<le> snd e"
    if e: "e \<in> set (openSet s')" for e
  proof (cases "fst e = n")
    case True
    show ?thesis
    proof (cases "e \<in> set (openSet s)")
      case True
      then obtain ge where ge: "gScore s (fst e) = Some ge"
          "ge + real_of_int (heuristic (fst e) goal) \<le> snd e"
        using inv unfolding queueInv_def by blast
      with \<open>fst e = n\<close> better have "t < ge" by simp
      with ge \<open>fst e = n\<close> show ?thesis by (simp add: g')
    next
      case False
      with e set' have "e = (n, t + real_of_int (heuristic n goal))" by simp
      then show ?thesis by (simp add: g')
    qed
  next
    case False
    with e set' have "e \<in> set (openSet s)" by auto
    then obtain ge where "gScore s (fst e) = Some ge"
        "ge + real_of_int (heuristic (fst e) goal) \<le> snd e"
      using inv unfolding queueInv_def by blast
    with False show ?thesis by (simp add: g')
  qed
  have c: "\<exists>e\<in>set (openSet s'). fst e = m \<and> snd e \<le> gm + real_of_int (heuristic m goal)"
    if m: "gScore s' m = Some gm" "m \<notin> visited s'" for m gm
  proof (cases "m = n")
    case True
    with m g' have "gm = t" by simp
    with True show ?thesis unfolding set' by simp
  next
    case False
    with m g' v' have "gScore s m = Some gm" "m \<notin> visited s" by simp_all
    then have "\<exists>e\<in>set (openSet s). fst e = m \<and> snd e \<le> gm + real_of_int (heuristic m goal)"
      using inv unfolding queueInv_def by blast
    then show ?thesis unfolding set' by blast
  qed
  from a b c show ?thesis unfolding queueInv_def by blast
qed

lemma scoreInv_update:
  assumes inv: "scoreInv start s"
    and sv: "start \<in> visited s" and nv: "n \<notin> visited s" and srcv: "src \<in> visited s"
    and gs: "gScore s src = Some gs"
    and c': "cameFrom s' = (cameFrom s)(n \<mapsto> src)"
    and g': "gScore s' = (gScore s)(n \<mapsto> gs + distance src n)"
    and v': "visited s' = visited s"
  shows "scoreInv start s'"
proof -
  from sv nv have ns: "n \<noteq> start" by blast
  from srcv nv have nsrc: "src \<noteq> n" by blast
  have 1: "cameFrom s' start = None" "gScore s' start = Some 0"
    using inv ns unfolding scoreInv_def by (simp_all add: c' g')
  have 2: "p \<in> visited s' \<and> (\<exists>gp. gScore s' p = Some gp \<and> gScore s' m = Some (gp + distance p m))"
    if m: "cameFrom s' m = Some p" for m p
  proof (cases "m = n")
    case True
    with m c' have "p = src" by simp
    with True srcv gs nsrc show ?thesis by (simp add: g' v')
  next
    case False
    with m c' have "cameFrom s m = Some p" by simp
    then have p: "p \<in> visited s"
        "\<exists>gp. gScore s p = Some gp \<and> gScore s m = Some (gp + distance p m)"
      using inv unfolding scoreInv_def by blast+
    from p(1) nv have "p \<noteq> n" by blast
    with p False show ?thesis by (simp add: g' v')
  qed
  have 3: "m = start \<or> cameFrom s' m \<noteq> None" if "gScore s' m \<noteq> None" for m
  proof (cases "m = n")
    case True
    then show ?thesis by (simp add: c')
  next
    case False
    with that g' have "gScore s m \<noteq> None" by simp
    then have "m = start \<or> cameFrom s m \<noteq> None"
      using inv unfolding scoreInv_def by blast
    with False show ?thesis by (simp add: c')
  qed
  have 4: "gScore s' m \<noteq> None" if "m \<in> visited s'" for m
  proof -
    from that v' have "m \<in> visited s" by simp
    then have "gScore s m \<noteq> None" using inv unfolding scoreInv_def by blast
    then show ?thesis by (simp add: g')
  qed
  from sv have 5: "start \<in> visited s'" by (simp add: v')
  from 1 2 3 4 5 show ?thesis unfolding scoreInv_def by blast
qed

lemma relaxedInv_update:
  assumes inv: "relaxedInv R c (n # todo) s"
    and nv: "n \<notin> visited s"
    and g': "gScore s' = (gScore s)(n \<mapsto> t)"
    and v': "visited s' = visited s"
    and better: "\<forall>gn. gScore s n = Some gn \<longrightarrow> t < gn"
    and gc: "gScore s c = Some gc"
    and step: "R c n \<longrightarrow> t \<le> gc + 1"
  shows "relaxedInv R c todo s'"
  unfolding relaxedInv_def
proof (intro allI impI)
  fix m k
  assume m: "m \<in> visited s'" and k: "k \<notin> visited s'" and r: "R m k"
    and ex: "\<not> (m = c \<and> k \<in> set todo)"
  from m k v' have mv: "m \<in> visited s" and kv: "k \<notin> visited s" by simp_all
  from mv nv have mn: "m \<noteq> n" by blast
  show "\<exists>gm gn. gScore s' m = Some gm \<and> gScore s' k = Some gn \<and> gn \<le> gm + 1"
  proof (cases "k = n")
    case False
    with ex have "\<not> (m = c \<and> k \<in> set (n # todo))" by simp
    with inv mv kv r obtain gm gn where "gScore s m = Some gm" "gScore s k = Some gn" "gn \<le> gm + 1"
      unfolding relaxedInv_def by blast
    with False mn show ?thesis by (simp add: g')
  next
    case True
    show ?thesis
    proof (cases "m = c")
      case True
      with r \<open>k = n\<close> step have "t \<le> gc + 1" by simp
      with True \<open>k = n\<close> gc mn show ?thesis by (simp add: g')
    next
      case False
      then have "\<not> (m = c \<and> k \<in> set (n # todo))" by simp
      with inv mv kv r obtain gm gn where o: "gScore s m = Some gm" "gScore s k = Some gn" "gn \<le> gm + 1"
        unfolding relaxedInv_def by blast
      with \<open>k = n\<close> better have "t < gn" by simp
      with o \<open>k = n\<close> mn show ?thesis by (simp add: g')
    qed
  qed
qed

lemma relaxedInv_keep:
  assumes inv: "relaxedInv R c (n # todo) s"
    and ok: "n \<in> visited s \<or> (\<exists>gn gc. gScore s n = Some gn \<and> gScore s c = Some gc
                                 \<and> (R c n \<longrightarrow> gn \<le> gc + 1))"
  shows "relaxedInv R c todo s"
  unfolding relaxedInv_def
proof (intro allI impI)
  fix m k
  assume m: "m \<in> visited s" and k: "k \<notin> visited s" and r: "R m k"
    and ex: "\<not> (m = c \<and> k \<in> set todo)"
  show "\<exists>gm gn. gScore s m = Some gm \<and> gScore s k = Some gn \<and> gn \<le> gm + 1"
  proof (cases "m = c \<and> k = n")
    case True
    with ok k r show ?thesis by auto
  next
    case False
    with ex have "\<not> (m = c \<and> k \<in> set (n # todo))" by auto
    with inv m k r show ?thesis unfolding relaxedInv_def by blast
  qed
qed

lemma prefixInv_update:
  assumes inv: "prefixInv P s"
    and nv: "n \<notin> visited s"
    and g': "gScore s' = (gScore s)(n \<mapsto> t)"
    and v': "visited s' = visited s"
  shows "prefixInv P s'"
  unfolding prefixInv_def
proof (intro allI impI)
  fix i
  assume i: "i < length P" and "P ! i \<in> visited s'"
  then have pv: "P ! i \<in> visited s" by (simp add: v')
  with nv have "P ! i \<noteq> n" by blast
  moreover from inv i pv obtain gi where "gScore s (P ! i) = Some gi" "gi \<le> real i"
    unfolding prefixInv_def by blast
  ultimately show "\<exists>gi. gScore s' (P ! i) = Some gi \<and> gi \<le> real i" by (simp add: g')
qed


lemma theta_update_inv:
  assumes inv: "thetaInv R start goal P c (n # todo) s"
    and sv: "start \<in> visited s" and cv: "c \<in> visited s" and nv: "n \<notin> visited s"
    and srcv: "src \<in> visited s"
    and bound: "\<And>gs gc. gScore s src = Some gs \<Longrightarrow> gScore s c = Some gc \<Longrightarrow> R c n
                  \<Longrightarrow> gs + distance src n \<le> gc + 1"
    and upd: "theta_update goal src n s = Inr s'"
  shows "thetaInv R start goal P c todo s' \<and> visited s' = visited s"
proof -
  from inv have q: "queueInv goal s" and sc: "scoreInv start s"
    and rl: "relaxedInv R c (n # todo) s" and pf: "prefixInv P s"
    unfolding thetaInv_def by simp_all
  from sc cv obtain gc where gc: "gScore s c = Some gc" unfolding scoreInv_def by blast
  from upd show ?thesis
  proof (cases rule: theta_update_cases)
    case (1 gs gn)
    from bound[OF 1(1) gc] 1(3) have "R c n \<longrightarrow> gn \<le> gc + 1" by auto
    with 1(2) gc have "relaxedInv R c todo s" by (intro relaxedInv_keep[OF rl]) blast
    with q sc pf 1(4) show ?thesis unfolding thetaInv_def by simp
  next
    case (2 gs)
    let ?t = "gs + distance src n"
    from bound[OF 2(1) gc] have step: "R c n \<longrightarrow> ?t \<le> gc + 1" by blast
    have "queueInv goal s'" by (rule queueInv_update[OF q 2(4) 2(5) 2(6) 2(2)])
    moreover have "scoreInv start s'" by (rule scoreInv_update[OF sc sv nv srcv 2(1) 2(3) 2(4) 2(6)])
    moreover have "relaxedInv R c todo s'" by (rule relaxedInv_update[OF rl nv 2(4) 2(6) 2(2) gc step])
    moreover have "prefixInv P s'" by (rule prefixInv_update[OF pf nv 2(4) 2(6)])
    ultimately show ?thesis using 2(6) unfolding thetaInv_def by simp
  qed
qed

lemma theta_neighbor_inv:
  assumes inv: "thetaInv (legalMove g rows cols) start goal P c (n # todo) s"
    and sv: "start \<in> visited s" and cv: "c \<in> visited s"
    and nb: "theta_neighbor g goal c n s = Some (Inr s')"
  shows "thetaInv (legalMove g rows cols) start goal P c todo s' \<and> visited s' = visited s"
proof (cases "n \<in> visited s")
  case True
  with nb have eq: "s' = s" by (simp add: theta_neighbor_def)
  from inv have "relaxedInv (legalMove g rows cols) c (n # todo) s" unfolding thetaInv_def by simp
  then have "relaxedInv (legalMove g rows cols) c todo s"
    by (rule relaxedInv_keep) (simp add: True)
  with inv eq show ?thesis unfolding thetaInv_def by simp
next
  case False
  have direct: "gs + distance c n \<le> gc + 1"
    if "gScore s c = Some gs" "gScore s c = Some gc" "legalMove g rows cols c n" for gs gc
    using that by (simp add: legalMove_def distance_adjacent4)
  show ?thesis
  proof (cases "cameFrom s c")
    case None
    with nb False have "theta_update goal c n s = Inr s'" by (simp add: theta_neighbor_def)
    from theta_update_inv[OF inv sv cv False cv direct this] show ?thesis by simp
  next
    case (Some parent)
    with nb False obtain sees where los: "lineOfSight parent n g = Some (Inr sees)"
      and upd: "theta_update goal (if sees then parent else c) n s = Inr s'"
      by (auto simp: theta_neighbor_def split: Option.bind_splits sum.splits if_splits)
    show ?thesis
    proof (cases sees)
      case False
      with upd have "theta_update goal c n s = Inr s'" by simp
      from theta_update_inv[OF inv sv cv \<open>n \<notin> visited s\<close> cv direct this] show ?thesis by simp
    next
      case True
      with upd have u: "theta_update goal parent n s = Inr s'" by simp
      from inv have "scoreInv start s" unfolding thetaInv_def by simp
      with Some obtain gp where pv: "parent \<in> visited s" and gp: "gScore s parent = Some gp"
        and gcp: "gScore s c = Some (gp + distance parent c)"
        unfolding scoreInv_def by blast
      have via: "gs + distance parent n \<le> gc + 1"
        if "gScore s parent = Some gs" "gScore s c = Some gc" "legalMove g rows cols c n" for gs gc
      proof -
        from that gp gcp have "gs = gp" "gc = gp + distance parent c" by simp_all
        moreover from that(3) have "distance c n = 1" by (simp add: legalMove_def distance_adjacent4)
        ultimately show ?thesis using distance_triangle[of parent n c] by simp
      qed
      from theta_update_inv[OF inv sv cv \<open>n \<notin> visited s\<close> pv via u] show ?thesis by simp
    qed
  qed
qed

lemma theta_relax_inv:
  assumes "theta_relax g goal c ns s = Some (Inr s')"
    and "thetaInv (legalMove g rows cols) start goal P c ns s"
    and "start \<in> visited s" and "c \<in> visited s"
  shows "thetaInv (legalMove g rows cols) start goal P c [] s'"
  using assms
proof (induction ns arbitrary: s)
  case Nil
  then show ?case by simp
next
  case (Cons n ns)
  from Cons.prems(1) obtain s1 where n: "theta_neighbor g goal c n s = Some (Inr s1)"
    and rest: "theta_relax g goal c ns s1 = Some (Inr s')"
    by (auto split: option.splits sum.splits)
  from theta_neighbor_inv[OF Cons.prems(2,3,4) n]
  have "thetaInv (legalMove g rows cols) start goal P c ns s1" "visited s1 = visited s" by simp_all
  with Cons.IH[OF rest] Cons.prems(3,4) show ?case by simp
qed

lemma relaxedInv_Nil: "relaxedInv R c [] s \<longleftrightarrow> relaxedInv R c' [] s"
  by (simp add: relaxedInv_def)

lemma thetaInv_Nil: "thetaInv R start goal P c [] s \<longleftrightarrow> thetaInv R start goal P c' [] s"
  unfolding thetaInv_def relaxedInv_Nil[of R c s c'] ..


lemma theta_frontier:
  assumes inv: "thetaInv (legalMove g rows cols) start goal P c0 [] s"
    and wk: "walk (legalMove g rows cols) start goal P"
    and os: "openSet s = e # rest" and ev: "fst e \<notin> visited s"
    and i: "i < length P" and Pi: "P ! i = fst e"
  shows "\<exists>gc. gScore s (fst e) = Some gc \<and> gc \<le> real i"
proof -
  from inv have q: "queueInv goal s" and sc: "scoreInv start s"
    and rl: "relaxedInv (legalMove g rows cols) c0 [] s" and pf: "prefixInv P s"
    unfolding thetaInv_def by simp_all
  from q os obtain gc where gc: "gScore s (fst e) = Some gc"
    and pr: "gc + real_of_int (heuristic (fst e) goal) \<le> snd e"
    unfolding queueInv_def by auto
  show ?thesis
  proof (cases "start \<in> visited s")
    case False
    with sc os have "fst e = start" unfolding scoreInv_def by auto
    with sc gc have "gc = 0" unfolding scoreInv_def by simp
    with gc show ?thesis by simp
  next
    case True
    from wk have P0: "P ! 0 = start" and succ: "successively (legalMove g rows cols) P"
      unfolding walk_def by (auto simp: hd_conv_nth)
    define j where "j = (LEAST j. P ! j \<notin> visited s)"
    from ev Pi have open_i: "P ! i \<notin> visited s" by simp
    then have open_j: "P ! j \<notin> visited s" unfolding j_def by (rule LeastI)
    from open_i have ji: "j \<le> i" unfolding j_def by (rule Least_le)
    have closed: "P ! k \<in> visited s" if "k < j" for k
      using not_less_Least[OF that[unfolded j_def]] by simp
    from True P0 open_j have "j \<noteq> 0" by (cases "j = 0") auto
    then obtain k where k: "j = Suc k" by (cases j) auto
    from ji i k have kj: "Suc k < length P" by simp
    from successively_nth[OF succ kj] have mv: "legalMove g rows cols (P ! k) (P ! j)"
      by (simp add: k)
    from closed[of k] k have kc: "P ! k \<in> visited s" by simp
    from kj have "k < length P" by simp
    with pf kc obtain gk where gk: "gScore s (P ! k) = Some gk" "gk \<le> real k"
      unfolding prefixInv_def by blast
    from rl kc open_j mv obtain gm gn where
      "gScore s (P ! k) = Some gm" and gn: "gScore s (P ! j) = Some gn" and "gn \<le> gm + 1"
      unfolding relaxedInv_def by (simp del: ex_simps) blast
    with gk have gnj: "gn \<le> real j" by (simp add: k)
    from q gn open_j obtain e' where e': "e' \<in> set (openSet s)"
      and "fst e' = P ! j" and pr': "snd e' \<le> gn + real_of_int (heuristic (P ! j) goal)"
      unfolding queueInv_def by blast
    from q os have "sorted (map snd (e # rest))" unfolding queueInv_def by simp
    from sorted_head_min[OF this e'[unfolded os]] have "snd e \<le> snd e'" .
    moreover from walk_heuristic[OF succ ji i, of goal]
    have "real_of_int (heuristic (P ! j) goal) \<le> real_of_int (heuristic (P ! i) goal) + real (i - j)"
      by (metis of_int_add of_int_le_iff of_int_of_nat_eq)
    moreover from ji have "real (i - j) = real i - real j" by (simp add: of_nat_diff)
    ultimately have "gc \<le> real i" using pr pr' gnj Pi by simp
    with gc show ?thesis by simp
  qed
qed

lemma theta_visit:
  assumes inv: "thetaInv (legalMove g rows cols) start goal P c0 [] s"
    and wk: "walk (legalMove g rows cols) start goal P"
    and os: "openSet s = e # rest" and ev: "fst e \<notin> visited s"
    and nbrs: "\<And>n. legalMove g rows cols (fst e) n \<Longrightarrow> n \<in> set ns"
    and s1: "s1 = s\<lparr>openSet := rest, visited := insert (fst e) (visited s), nExplored := k\<rparr>"
  shows "thetaInv (legalMove g rows cols) start goal P (fst e) ns s1"
    and "start \<in> visited s1" and "fst e \<in> visited s1"
proof -
  from inv have q: "queueInv goal s" and sc: "scoreInv start s"
    and rl: "relaxedInv (legalMove g rows cols) c0 [] s" and pf: "prefixInv P s"
    unfolding thetaInv_def by simp_all
  have f: "openSet s1 = rest" "visited s1 = insert (fst e) (visited s)"
    "gScore s1 = gScore s" "cameFrom s1 = cameFrom s"
    by (simp_all add: s1)
  from q os obtain ge where ge: "gScore s (fst e) = Some ge" unfolding queueInv_def by auto
  show sv: "start \<in> visited s1"
    using sc os unfolding scoreInv_def f by auto
  show "fst e \<in> visited s1" unfolding f by simp
  have q1: "queueInv goal s1"
  proof -
    from q os have a: "sorted (map snd rest)" unfolding queueInv_def by simp
    have b: "\<exists>ge. gScore s (fst x) = Some ge \<and> ge + real_of_int (heuristic (fst x) goal) \<le> snd x"
      if "x \<in> set rest" for x
      using q os that unfolding queueInv_def by auto
    have c: "\<exists>x\<in>set rest. fst x = n \<and> snd x \<le> gn + real_of_int (heuristic n goal)"
      if n: "gScore s n = Some gn" "n \<notin> insert (fst e) (visited s)" for n gn
    proof -
      from n have "n \<notin> visited s" "n \<noteq> fst e" by auto
      with q n(1) obtain x where "x \<in> set (openSet s)" "fst x = n"
          "snd x \<le> gn + real_of_int (heuristic n goal)"
        unfolding queueInv_def by blast
      with os \<open>n \<noteq> fst e\<close> show ?thesis by auto
    qed
    from a b c show ?thesis unfolding queueInv_def f by blast
  qed
  have sc1: "scoreInv start s1"
  proof -
    have "p \<in> insert (fst e) (visited s)
          \<and> (\<exists>gp. gScore s p = Some gp \<and> gScore s n = Some (gp + distance p n))"
      if "cameFrom s n = Some p" for n p
      using sc that unfolding scoreInv_def by blast
    moreover have "gScore s m \<noteq> None" if "m \<in> insert (fst e) (visited s)" for m
      using sc that ge unfolding scoreInv_def by auto
    moreover have "cameFrom s start = None" "gScore s start = Some 0"
      "\<forall>n. gScore s n \<noteq> None \<longrightarrow> n = start \<or> cameFrom s n \<noteq> None"
      using sc unfolding scoreInv_def by blast+
    ultimately show ?thesis using sv unfolding scoreInv_def f by blast
  qed
  have rl1: "relaxedInv (legalMove g rows cols) (fst e) ns s1"
    unfolding relaxedInv_def f
  proof (intro allI impI)
    fix m n
    assume m: "m \<in> insert (fst e) (visited s)" and n: "n \<notin> insert (fst e) (visited s)"
      and mv: "legalMove g rows cols m n" and ex: "\<not> (m = fst e \<and> n \<in> set ns)"
    from ex nbrs mv have "m \<noteq> fst e" by blast
    with m n have "m \<in> visited s" "n \<notin> visited s" by auto
    with rl mv show "\<exists>gm gn. gScore s m = Some gm \<and> gScore s n = Some gn \<and> gn \<le> gm + 1"
      unfolding relaxedInv_def by simp
  qed
  have pf1: "prefixInv P s1"
    unfolding prefixInv_def f
  proof (intro allI impI)
    fix i
    assume i: "i < length P" and v: "P ! i \<in> insert (fst e) (visited s)"
    show "\<exists>gi. gScore s (P ! i) = Some gi \<and> gi \<le> real i"
    proof (cases "P ! i \<in> visited s")
      case True
      with pf i show ?thesis unfolding prefixInv_def by simp
    next
      case False
      with v have "P ! i = fst e" by simp
      with theta_frontier[OF inv wk os ev i this] show ?thesis by simp
    qed
  qed
  from q1 sc1 rl1 pf1 show "thetaInv (legalMove g rows cols) start goal P (fst e) ns s1"
    unfolding thetaInv_def by simp
qed

lemma theta_skip:
  assumes inv: "thetaInv R start goal P c [] s"
    and os: "openSet s = e # rest" and ev: "fst e \<in> visited s"
  shows "thetaInv R start goal P c [] (s\<lparr>openSet := rest\<rparr>)"
proof -
  from inv have q: "queueInv goal s" and sc: "scoreInv start s"
    and rl: "relaxedInv R c [] s" and pf: "prefixInv P s"
    unfolding thetaInv_def by simp_all
  have "queueInv goal (s\<lparr>openSet := rest\<rparr>)"
  proof -
    from q os have a: "sorted (map snd rest)" unfolding queueInv_def by simp
    have b: "\<exists>ge. gScore s (fst x) = Some ge \<and> ge + real_of_int (heuristic (fst x) goal) \<le> snd x"
      if "x \<in> set rest" for x
      using q os that unfolding queueInv_def by auto
    have c: "\<exists>x\<in>set rest. fst x = n \<and> snd x \<le> gn + real_of_int (heuristic n goal)"
      if n: "gScore s n = Some gn" "n \<notin> visited s" for n gn
    proof -
      from q n obtain x where "x \<in> set (openSet s)" "fst x = n"
          "snd x \<le> gn + real_of_int (heuristic n goal)"
        unfolding queueInv_def by blast
      with os ev n(2) show ?thesis by auto
    qed
    from a b c show ?thesis unfolding queueInv_def by simp
  qed
  moreover have "scoreInv start (s\<lparr>openSet := rest\<rparr>)"
  proof -
    from sc os ev have "start \<in> visited s" unfolding scoreInv_def by auto
    with sc show ?thesis unfolding scoreInv_def by simp
  qed
  moreover from rl have "relaxedInv R c [] (s\<lparr>openSet := rest\<rparr>)" unfolding relaxedInv_def by simp
  moreover from pf have "prefixInv P (s\<lparr>openSet := rest\<rparr>)" unfolding prefixInv_def by simp
  ultimately show ?thesis unfolding thetaInv_def by simp
qed

lemma thetaInv_init:
  "thetaInv R start goal P c [] (real_init start goal)"
  unfolding thetaInv_def queueInv_def scoreInv_def relaxedInv_def prefixInv_def
  by (simp add: real_init_def enqueue_def)

lemma reconstructLoop_length:
  assumes run: "reconstructLoop cf cur acc = Some p"
    and st: "gs start = Some 0"
    and pre: "\<forall>n q. cf n = Some q \<longrightarrow> (\<exists>gq. gs q = Some gq \<and> gs n = Some (gq + distance q n))"
    and root: "\<forall>n. gs n \<noteq> None \<longrightarrow> n = start \<or> cf n \<noteq> None"
    and cur: "gs cur = Some gc" and acc: "acc \<noteq> []" "hd acc = cur"
  shows "sumDistances 0 p = gc + sumDistances 0 acc"
proof -
  have "cf = cf \<longrightarrow> (\<forall>gc. gs cur = Some gc \<longrightarrow> acc \<noteq> [] \<longrightarrow> hd acc = cur
          \<longrightarrow> sumDistances 0 p = gc + sumDistances 0 acc)"
  proof (rule reconstructLoop.raw_induct[where
        P = "\<lambda>c cur acc p. c = cf \<longrightarrow> (\<forall>gc. gs cur = Some gc \<longrightarrow> acc \<noteq> [] \<longrightarrow> hd acc = cur
              \<longrightarrow> sumDistances 0 p = gc + sumDistances 0 acc)", OF _ run], goal_cases)
    case (1 rl c cur acc p)
    show ?case
    proof (intro impI allI)
      fix gc
      assume c: "c = cf" and g: "gs cur = Some gc" and a: "acc \<noteq> []" "hd acc = cur"
      show "sumDistances 0 p = gc + sumDistances 0 acc"
      proof (cases "cf cur")
        case None
        with root g have "cur = start" by auto
        with st g have "gc = 0" by simp
        moreover from 1(2) None c have "p = acc" by simp
        ultimately show ?thesis by simp
      next
        case (Some prev)
        with 1(2) c have rec: "rl cf prev (prev # acc) = Some p" by simp
        from Some pre g obtain gq where gq: "gs prev = Some gq" "gc = gq + distance prev cur"
          by fastforce
        from a obtain tl where tl: "acc = cur # tl" by (cases acc) auto
        have "sumDistances 0 (prev # acc) = distance prev cur + sumDistances 0 acc"
          using sumDistances_acc[of "0 + distance prev cur" "cur # tl"] by (simp add: tl)
        moreover from 1(1)[OF rec] gq(1)
        have "sumDistances 0 p = gq + sumDistances 0 (prev # acc)" by simp
        ultimately show ?thesis using gq(2) by simp
      qed
    qed
  qed
  with cur acc show ?thesis by simp
qed

lemma theta_cost_bound:
  assumes run: "thetaStar g start goal rows cols = Some (Inr (Some r))"
    and wk: "walk (legalMove g rows cols) start goal P"
  shows "pathCost (metrics r) \<le> real (length P - 1)"
proof -
  let ?R = "legalMove g rows cols"
  note rule = while_loop_rule[where I = "thetaInv ?R start goal P start []"
      and Q = "\<lambda>out. \<forall>r. out = Inr (Some r) \<longrightarrow> pathCost (metrics r) \<le> real (length P - 1)",
      OF run[unfolded thetaStar_def]]
  have "\<forall>ra. (Inr (Some r) :: error + pos result option) = Inr (Some ra)
           \<longrightarrow> pathCost (metrics ra) \<le> real (length P - 1)"
  proof (rule rule, goal_cases)
    case 1
    show ?case by (rule thetaInv_init)
  next
    case (2 s s')
    from 2(2) obtain e rest where os: "openSet s = e # rest"
      by (auto simp: theta_body_def split: list.splits)
    show ?case
    proof (cases "fst e \<in> visited s")
      case True
      with 2(2) os have "s' = s\<lparr>openSet := rest\<rparr>" by (simp add: theta_body_def)
      with theta_skip[OF 2(1) os True] show ?thesis by simp
    next
      case False
      let ?s1 = "s\<lparr>openSet := rest, visited := insert (fst e) (visited s), nExplored := Suc (nExplored s)\<rparr>"
      from 2(2) os False obtain ns where nb: "getNeighbors (fst e) g rows cols True = Inr ns"
        and rl: "theta_relax g goal (fst e) ns ?s1 = Some (Inr s')"
        by (auto simp: theta_body_def Let_def map_sum_Continue_iff
            split: if_splits sum.splits)
      from theta_visit[OF 2(1) wk os False getNeighbors8_legal[OF nb] refl]
      have "thetaInv ?R start goal P (fst e) ns ?s1" "start \<in> visited ?s1" "fst e \<in> visited ?s1"
        by blast+
      from theta_relax_inv[OF rl this] show ?thesis
        unfolding thetaInv_Nil[of ?R start goal P start s' "fst e"] .
    qed
  next
    case (3 s v)
    show ?case
    proof (intro allI impI)
      fix r assume "Inr v = Inr (Some r)"
      with 3(2) obtain e rest p n where os: "openSet s = e # rest" and e: "fst e = goal"
        and ev: "fst e \<notin> visited s"
        and p: "reconstructPath (cameFrom s) goal = Some p" and r: "r = distanceResult p n"
        by (auto simp: theta_body_def Let_def map_sum_Continue split: list.splits if_splits sum.splits)
      from wk have "P \<noteq> []" "last P = goal" unfolding walk_def by simp_all
      then have "length P - 1 < length P" "P ! (length P - 1) = fst e"
        by (simp_all add: e last_conv_nth)
      from theta_frontier[OF 3(1) wk os ev this] e obtain gc
        where gc: "gScore s goal = Some gc" "gc \<le> real (length P - 1)" by auto
      from 3(1) have sc: "scoreInv start s" unfolding thetaInv_def by simp
      have "sumDistances 0 p = gc + sumDistances 0 [goal]"
        by (rule reconstructLoop_length[OF p[unfolded reconstructPath_def], where gs = "gScore s" and start = start])
           (use sc gc in \<open>auto simp: scoreInv_def\<close>)
      with gc have "sumDistances 0 p \<le> real (length P - 1)" by simp
      from rounded_le[OF this] show "pathCost (metrics r) \<le> real (length P - 1)"
        by (simp add: r distanceResult_def calculatePathDistance_def)
    qed
  next
    case (4 s e)
    then show ?case by simp
  qed
  then show ?thesis by simp
qed


text \<open>
  C5. Whenever both searches return a result for the same grid, start and goal, the
  cost that Theta* reports is at most the cost that A* reports. The path of A* is a walk
  of legal steps from the start to the goal and its cost is the number of its steps;
  Theta* closes the goal with a score of at most that number, its path has that score as
  its length, and rounding to a tenth does not lift a length above a whole number that
  bounds it. Numbers are reals here, as everywhere in the model.
\<close>

theorem C5_theta_cost_le_astar:
  assumes "thetaStar g start goal rows cols = Some (Inr (Some rt))"
    and "astar g start goal rows cols = Some (Inr (Some ra))"
  shows "pathCost (metrics rt) \<le> pathCost (metrics ra)"
proof -
  from astar_shape[OF assms(2)] obtain p n where ra: "ra = stepResult p n" by blast
  from astar_walk[OF assms(2)] ra have wk: "walk (legalMove g rows cols) start goal p"
    by (simp add: stepResult_def)
  then have "p \<noteq> []" unfolding walk_def by simp
  then have "real (length p - 1) = real (length p) - 1"
    by (cases p) simp_all
  with theta_cost_bound[OF assms(1) wk] show ?thesis
    by (simp add: ra stepResult_def)
qed

theorem C5_theta_cost_le_astar_witness:
  "thetaStar (emptyGrid 2 2) (Pos 0 0) (Pos 1 1) 2 2
       = Some (Inr (Some (distanceResult [Pos 0 0, Pos 1 1] 2)))
   \<and> astar (emptyGrid 2 2) (Pos 0 0) (Pos 1 1) 2 2
       = Some (Inr (Some (stepResult [Pos 0 0, Pos 1 0, Pos 1 1] 3)))
   \<and> pathCost (metrics (distanceResult [Pos 0 0, Pos 1 1] 2)) = 7 / 5
   \<and> pathCost (metrics (stepResult [Pos 0 0, Pos 1 0, Pos 1 1] 3)) = 2
   \<and> pathCost (metrics (distanceResult [Pos 0 0, Pos 1 1] 2))
       \<le> pathCost (metrics (stepResult [Pos 0 0, Pos 1 0, Pos 1 1] 3))"
proof -
  have "pathCost (metrics (stepResult [Pos 0 0, Pos 1 0, Pos 1 1] 3)) = 2"
    by (simp add: stepResult_def)
  with C5_theta_cost_le_astar[OF theta_empty2 astar_empty2] theta_empty2 astar_empty2
    diagonal_cost(1)
  show ?thesis by simp
qed

end
